theory Spec2Isabelle
  imports Complex_Main "HOL-Library.AList" "HOL-Library.Option_ord"
begin

section \<open>Data model\<close>

text \<open>
  The topic path finder (class \<open>TopicPathFinder\<close>) works on topic records, of which it reads
  the fields \<open>id\<close>, \<open>name\<close>, \<open>content\<close> and the optional \<open>parentTopicId\<close>. Strings are lists of
  code units below 256. A JavaScript \<open>Map\<close> iterates in insertion order and \<open>set\<close> on a key
  that is present keeps its place: it is an association list updated with \<open>AList.update\<close>.
  A JavaScript \<open>Set\<close> iterates in insertion order: it is a list without duplicates, extended
  at its end. Numbers are exact rationals, together with the two infinities that the code
  itself produces (\<open>Infinity\<close> as the initial distance, \<open>-Infinity\<close> as \<open>Math.max()\<close>).
\<close>

record ITopicData =
  id_topic :: string
  name :: string
  content :: string
  parentTopicId :: "string option"

datatype number = NegInfinity | Finite rat | Infinity

datatype error = TypeError

record TopicPathFinder =
  topics :: "(string \<times> ITopicData) list"
  adjacencyList :: "(string \<times> string list) list"

text \<open>
  The fields of the three result types carry a prefix (\<open>sp\<close>, \<open>pn\<close>, \<open>gs\<close>), since the
  same names are parameters and local variables of the functions below. The non-null
  assertions \<open>distances.get(endId)!\<close> and \<open>this.topics.get(id)!\<close> do nothing at run time:
  \<open>sp_distance\<close> and the entries of \<open>sp_topics\<close> are \<open>None\<close> where the lookup gives
  \<open>undefined\<close>.
\<close>

record ShortestPath =
  sp_path :: "string list"
  sp_distance :: "number option"
  sp_topics :: "ITopicData option list"

record PathNode =
  pn_topicId :: string
  pn_distance :: number
  pn_parent :: "string option"

record GraphStats =
  gs_nodeCount :: nat
  gs_edgeCount :: rat
  gs_maxDepth :: number
  gs_rootNodes :: "string list"

text \<open>Order of numbers: \<open>-Infinity\<close> below every rational, \<open>Infinity\<close> above.\<close>

fun number_le :: "number \<Rightarrow> number \<Rightarrow> bool" where
  "number_le NegInfinity _ = True"
| "number_le (Finite a) NegInfinity = False"
| "number_le (Finite a) (Finite b) = (a \<le> b)"
| "number_le (Finite a) Infinity = True"
| "number_le Infinity Infinity = True"
| "number_le Infinity _ = False"

instantiation number :: linorder
begin

definition less_eq_number :: "number \<Rightarrow> number \<Rightarrow> bool" where
  "less_eq_number a b = number_le a b"

definition less_number :: "number \<Rightarrow> number \<Rightarrow> bool" where
  "less_number a b = (number_le a b \<and> \<not> number_le b a)"

instance
proof
  fix x y z :: number
  show "(x < y) = (x \<le> y \<and> \<not> y \<le> x)"
    by (simp add: less_eq_number_def less_number_def)
  show "x \<le> x"
    by (cases x) (simp_all add: less_eq_number_def)
  show "x \<le> y \<Longrightarrow> y \<le> z \<Longrightarrow> x \<le> z"
    by (cases x; cases y; cases z) (simp_all add: less_eq_number_def)
  show "x \<le> y \<Longrightarrow> y \<le> x \<Longrightarrow> x = y"
    by (cases x; cases y) (simp_all add: less_eq_number_def)
  show "x \<le> y \<or> y \<le> x"
    by (cases x; cases y) (auto simp add: less_eq_number_def)
qed

end

text \<open>\<open>n + w\<close> for a finite \<open>w\<close>: the only addition the path finder performs on distances.\<close>

fun add_finite :: "number \<Rightarrow> rat \<Rightarrow> number" where
  "add_finite NegInfinity w = NegInfinity"
| "add_finite (Finite a) w = Finite (a + w)"
| "add_finite Infinity w = Infinity"

text \<open>Truthiness of an optional string: \<open>undefined\<close> and the empty string are falsy.\<close>

fun truthy :: "string option \<Rightarrow> bool" where
  "truthy None = False"
| "truthy (Some s) = (s \<noteq> [])"

text \<open>\<open>Map.has\<close>, \<open>Map.get\<close> (as \<open>map_of\<close>), \<open>Map.set\<close> (as \<open>AList.update\<close>), \<open>Set.add\<close>.\<close>

definition has :: "('k \<times> 'v) list \<Rightarrow> 'k \<Rightarrow> bool" where
  "has m k = (map_of m k \<noteq> None)"

definition set_add :: "'a \<Rightarrow> 'a list \<Rightarrow> 'a list" where
  "set_add x xs = (if x \<in> set xs then xs else xs @ [x])"

definition new_Set :: "'a list \<Rightarrow> 'a list" where
  "new_Set xs = fold set_add xs []"

section \<open>Building the graph\<close>

text \<open>\<open>this.adjacencyList.get(k)?.add(x)\<close>: nothing happens when \<open>k\<close> has no entry.\<close>

definition adj_add :: "string \<Rightarrow> string \<Rightarrow> (string \<times> string list) list \<Rightarrow> (string \<times> string list) list" where
  "adj_add k x adj =
     (case map_of adj k of
        None \<Rightarrow> adj
      | Some s \<Rightarrow> AList.update k (set_add x s) adj)"

definition init_topic :: "ITopicData \<Rightarrow> TopicPathFinder \<Rightarrow> TopicPathFinder" where
  "init_topic topic g =
     g\<lparr>topics := AList.update (id_topic topic) topic (topics g),
       adjacencyList := AList.update (id_topic topic) [] (adjacencyList g)\<rparr>"

definition link_topic :: "ITopicData \<Rightarrow> TopicPathFinder \<Rightarrow> TopicPathFinder" where
  "link_topic topic g =
     (case parentTopicId topic of
        None \<Rightarrow> g
      | Some p \<Rightarrow>
          if p \<noteq> [] \<and> has (topics g) p
          then g\<lparr>adjacencyList :=
                   adj_add (id_topic topic) p (adj_add p (id_topic topic) (adjacencyList g))\<rparr>
          else g)"

definition buildGraph :: "ITopicData list \<Rightarrow> TopicPathFinder" where
  "buildGraph ts =
     fold link_topic ts (fold init_topic ts \<lparr>topics = [], adjacencyList = []\<rparr>)"

text \<open>\<open>this.adjacencyList.get(id) || new Set()\<close>, as every traversal reads the neighbours.\<close>

definition neighbors :: "TopicPathFinder \<Rightarrow> string \<Rightarrow> string list" where
  "neighbors g u = (case map_of (adjacencyList g) u of None \<Rightarrow> [] | Some ns \<Rightarrow> ns)"

section \<open>Edge weights\<close>

definition stopWords :: "string list" where
  "stopWords = [''the'', ''a'', ''an'', ''and'', ''or'', ''but'', ''in'', ''on'', ''at'', ''to'',
     ''for'', ''of'', ''with'', ''by'', ''is'', ''are'', ''was'', ''were'', ''be'', ''been'',
     ''being'', ''have'', ''has'', ''had'', ''do'', ''does'', ''did'', ''will'', ''would'',
     ''could'', ''should'']"

text \<open>
  \<open>toLowerCase\<close> on code units below 256: the letters A to Z, and the upper-case letters of
  the Latin-1 range (0xC0 to 0xDE without the multiplication sign 0xD7), move up by 32.
\<close>

definition toLowerCase_char :: "char \<Rightarrow> char" where
  "toLowerCase_char c =
     (let n = (of_char c :: nat)
      in if (65 \<le> n \<and> n \<le> 90) \<or> (192 \<le> n \<and> n \<le> 222 \<and> n \<noteq> 215)
         then char_of (n + 32) else c)"

text \<open>The classes \<open>\w\<close> (letters, digits, underscore) and \<open>\s\<close> of a regular expression.\<close>

definition is_word_char :: "char \<Rightarrow> bool" where
  "is_word_char c =
     (let n = (of_char c :: nat)
      in (48 \<le> n \<and> n \<le> 57) \<or> (65 \<le> n \<and> n \<le> 90) \<or> n = 95 \<or> (97 \<le> n \<and> n \<le> 122))"

definition is_space :: "char \<Rightarrow> bool" where
  "is_space c = (let n = (of_char c :: nat) in (9 \<le> n \<and> n \<le> 13) \<or> n = 32 \<or> n = 160)"

text \<open>
  \<open>split(/\s+/)\<close>: the pieces between maximal runs of white space; a leading or trailing run
  gives an empty first or last piece, and the empty string gives one empty piece.
\<close>

function split_ws :: "string \<Rightarrow> string list" where
  "split_ws s =
     (let piece = takeWhile (\<lambda>c. \<not> is_space c) s;
          rest = dropWhile (\<lambda>c. \<not> is_space c) s
      in if rest = [] then [piece]
         else piece # split_ws (dropWhile is_space rest))"
  by pat_completeness auto
termination
proof (relation "measure length")
  show "wf (measure length)" by simp
next
  fix s :: string and piece rest
  assume r: "rest = dropWhile (\<lambda>c. \<not> is_space c) s" and ne: "rest \<noteq> []"
  have "length (dropWhile is_space rest) < length rest"
  proof (cases rest)
    case Nil
    with ne show ?thesis by simp
  next
    case (Cons c cs)
    from r Cons have "dropWhile (\<lambda>c. \<not> is_space c) s = c # cs" by simp
    then have "is_space c" by (simp add: dropWhile_eq_Cons_conv)
    with Cons show ?thesis
      by (simp add: le_imp_less_Suc length_dropWhile_le)
  qed
  moreover have "length rest \<le> length s"
    using r by (simp add: length_dropWhile_le)
  ultimately show "(dropWhile is_space rest, s) \<in> measure length" by simp
qed

declare split_ws.simps [simp del]

definition extractWords :: "string \<Rightarrow> string list" where
  "extractWords text =
     new_Set
       (filter (\<lambda>word. length word > 2 \<and> word \<notin> set stopWords)
          (split_ws
             (map (\<lambda>c. if is_word_char c \<or> is_space c then c else CHR '' '')
                (map toLowerCase_char text))))"

definition calculateContentSimilarity :: "ITopicData \<Rightarrow> ITopicData \<Rightarrow> rat" where
  "calculateContentSimilarity topic1 topic2 =
     (let words1 = extractWords (name topic1 @ '' '' @ content topic1);
          words2 = extractWords (name topic2 @ '' '' @ content topic2)
      in if length words1 = 0 \<or> length words2 = 0 then 0
         else
           (let intersection = new_Set (filter (\<lambda>word. word \<in> set words2) words1);
                union = new_Set (words1 @ words2)
            in of_nat (length intersection) / of_nat (length union)))"

text \<open>
  \<open>getEdgeWeight\<close> reads both topics with a non-null assertion; on an id that is not in the
  map the property access on \<open>undefined\<close> raises a \<open>TypeError\<close>.
\<close>

definition weight_of :: "string \<Rightarrow> ITopicData \<Rightarrow> string \<Rightarrow> ITopicData \<Rightarrow> rat" where
  "weight_of fromId fromTopic toId toTopic =
     (let weight = 1;
          weight = (if parentTopicId fromTopic = Some toId \<or> parentTopicId toTopic = Some fromId
                    then 1 else weight);
          contentSimilarity = calculateContentSimilarity fromTopic toTopic
      in weight + (1 - contentSimilarity) * (1 / 2))"

definition getEdgeWeight :: "TopicPathFinder \<Rightarrow> string \<Rightarrow> string \<Rightarrow> error + rat" where
  "getEdgeWeight g fromId toId =
     (case map_of (topics g) fromId of
        None \<Rightarrow> Inl TypeError
      | Some fromTopic \<Rightarrow>
          (case map_of (topics g) toId of
             None \<Rightarrow> Inl TypeError
           | Some toTopic \<Rightarrow> Inr (weight_of fromId fromTopic toId toTopic)))"

section \<open>Parent chains and statistics\<close>

text \<open>
  The two walks along \<open>parentTopicId\<close> are \<open>while\<close> loops with no bound: a result \<open>None\<close> of
  the loop functions below means that the loop does not end.
\<close>

partial_function (option) getAncestors_loop ::
  "TopicPathFinder \<Rightarrow> string list \<Rightarrow> string option \<Rightarrow> string list option" where
  "getAncestors_loop g ancestors currentId =
     (case currentId of
        None \<Rightarrow> Some ancestors
      | Some c \<Rightarrow>
          if c = [] then Some ancestors
          else getAncestors_loop g (ancestors @ [c])
                 (case map_of (topics g) c of
                    None \<Rightarrow> None
                  | Some topic \<Rightarrow> parentTopicId topic))"

declare getAncestors_loop.simps [code]

definition getAncestors :: "TopicPathFinder \<Rightarrow> string \<Rightarrow> string list option" where
  "getAncestors g topicId = getAncestors_loop g [] (Some topicId)"

partial_function (option) getTopicDepth_loop ::
  "TopicPathFinder \<Rightarrow> nat \<Rightarrow> string \<Rightarrow> nat option" where
  "getTopicDepth_loop g depth currentId =
     (if currentId = [] then Some depth
      else (case map_of (topics g) currentId of
              None \<Rightarrow> Some depth
            | Some topic \<Rightarrow>
                (case parentTopicId topic of
                   None \<Rightarrow> Some depth
                 | Some p \<Rightarrow>
                     if p = [] then Some depth
                     else getTopicDepth_loop g (depth + 1) p)))"

declare getTopicDepth_loop.simps [code]

definition getTopicDepth :: "TopicPathFinder \<Rightarrow> string \<Rightarrow> nat option" where
  "getTopicDepth g topicId = getTopicDepth_loop g 0 topicId"

text \<open>Calling a function that may not return on each element of a list, in order.\<close>

fun map_returns :: "('a \<Rightarrow> 'b option) \<Rightarrow> 'a list \<Rightarrow> 'b list option" where
  "map_returns f [] = Some []"
| "map_returns f (x # xs) =
     (case f x of
        None \<Rightarrow> None
      | Some y \<Rightarrow> (case map_returns f xs of None \<Rightarrow> None | Some ys \<Rightarrow> Some (y # ys)))"

text \<open>\<open>Math.max\<close> of any number of arguments: \<open>-Infinity\<close> when there is none.\<close>

definition Math_max :: "number list \<Rightarrow> number" where
  "Math_max xs = fold max xs NegInfinity"

definition getGraphStats :: "TopicPathFinder \<Rightarrow> GraphStats option" where
  "getGraphStats g =
     (let edgeCount = of_nat (fold (\<lambda>neighbors sum. sum + length neighbors)
                                (map snd (adjacencyList g)) 0) / 2;
          rootNodes = map id_topic
                        (filter (\<lambda>topic. \<not> truthy (parentTopicId topic)) (map snd (topics g)))
      in case map_returns (getTopicDepth g) (map fst (topics g)) of
           None \<Rightarrow> None
         | Some depths \<Rightarrow>
             Some \<lparr>gs_nodeCount = length (topics g),
                   gs_edgeCount = edgeCount,
                   gs_maxDepth = Math_max (map (\<lambda>d. Finite (of_nat d)) depths),
                   gs_rootNodes = rootNodes\<rparr>)"

text \<open>
  The selection loop of \<open>findClosestCommonAncestor\<close>: the first common ancestor of the
  greatest depth.
\<close>

fun closest_loop ::
  "TopicPathFinder \<Rightarrow> string list \<Rightarrow> string \<Rightarrow> nat \<Rightarrow> string option" where
  "closest_loop g [] closestAncestor maxDepth = Some closestAncestor"
| "closest_loop g (ancestor # rest) closestAncestor maxDepth =
     (case getTopicDepth g ancestor of
        None \<Rightarrow> None
      | Some depth \<Rightarrow>
          if depth > maxDepth then closest_loop g rest ancestor depth
          else closest_loop g rest closestAncestor maxDepth)"

text \<open>
  The result is \<open>None\<close> when a walk does not end, \<open>Some None\<close> for \<open>null\<close> and \<open>Some (Some a)\<close>
  for the ancestor \<open>a\<close>.
\<close>

definition findClosestCommonAncestor ::
  "TopicPathFinder \<Rightarrow> string \<Rightarrow> string \<Rightarrow> string option option" where
  "findClosestCommonAncestor g topicId1 topicId2 =
     (if \<not> has (topics g) topicId1 \<or> \<not> has (topics g) topicId2 then Some None
      else
        (case getAncestors g topicId1 of
           None \<Rightarrow> None
         | Some ancestors1 \<Rightarrow>
             (case getAncestors g topicId2 of
                None \<Rightarrow> None
              | Some ancestors2 \<Rightarrow>
                  (case filter (\<lambda>ancestor. ancestor \<in> set ancestors2) ancestors1 of
                     [] \<Rightarrow> Some None
                   | first # others \<Rightarrow>
                       (case getTopicDepth g first of
                          None \<Rightarrow> None
                        | Some maxDepth \<Rightarrow>
                            map_option Some
                              (closest_loop g (first # others) first maxDepth))))))"

section \<open>Shortest path\<close>

text \<open>
  The scan for the unvisited node of minimum distance: the first node, in the iteration
  order of the set, whose distance is strictly below every earlier one. A comparison with
  \<open>undefined\<close> is false.
\<close>

fun select_min ::
  "(string \<times> number) list \<Rightarrow> string list \<Rightarrow> string option \<Rightarrow> number \<Rightarrow> string option \<times> number" where
  "select_min distances [] currentNode minDistance = (currentNode, minDistance)"
| "select_min distances (nodeId # rest) currentNode minDistance =
     (case map_of distances nodeId of
        None \<Rightarrow> select_min distances rest currentNode minDistance
      | Some distance \<Rightarrow>
          if distance < minDistance then select_min distances rest (Some nodeId) distance
          else select_min distances rest currentNode minDistance)"

text \<open>
  The loop over the neighbours of the current node. \<open>getEdgeWeight\<close> may raise; the sum with
  an \<open>undefined\<close> distance is \<open>NaN\<close>, which is below nothing.
\<close>

fun relax_neighbors ::
  "TopicPathFinder \<Rightarrow> string \<Rightarrow> string list \<Rightarrow> string list \<Rightarrow>
   (string \<times> number) list \<times> (string \<times> string option) list \<Rightarrow>
   error + (string \<times> number) list \<times> (string \<times> string option) list" where
  "relax_neighbors g currentNode visited [] (distances, previous) = Inr (distances, previous)"
| "relax_neighbors g currentNode visited (neighborId # rest) (distances, previous) =
     (if neighborId \<in> set visited
      then relax_neighbors g currentNode visited rest (distances, previous)
      else
        (case getEdgeWeight g currentNode neighborId of
           Inl e \<Rightarrow> Inl e
         | Inr edgeWeight \<Rightarrow>
             (case (map_of distances currentNode, map_of distances neighborId) of
                (Some currentDistance, Some neighborDistance) \<Rightarrow>
                  (let newDistance = add_finite currentDistance edgeWeight
                   in if newDistance < neighborDistance
                      then relax_neighbors g currentNode visited rest
                             (AList.update neighborId newDistance distances,
                              AList.update neighborId (Some currentNode) previous)
                      else relax_neighbors g currentNode visited rest (distances, previous))
              | _ \<Rightarrow> relax_neighbors g currentNode visited rest (distances, previous))))"

lemma select_min_member:
  "select_min distances unvisited currentNode minDistance = (Some c, m) \<Longrightarrow>
   currentNode = Some c \<or> c \<in> set unvisited"
  by (induction unvisited arbitrary: currentNode minDistance)
    (auto split: option.splits if_splits)

function dijkstra_loop ::
  "TopicPathFinder \<Rightarrow> string \<Rightarrow> (string \<times> number) list \<Rightarrow> (string \<times> string option) list \<Rightarrow>
   string list \<Rightarrow> string list \<Rightarrow>
   error + (string \<times> number) list \<times> (string \<times> string option) list" where
  "dijkstra_loop g endId distances previous visited unvisited =
     (if length unvisited > 0
      then
        (case select_min distances unvisited None Infinity of
           (None, minDistance) \<Rightarrow> Inr (distances, previous)
         | (Some currentNode, minDistance) \<Rightarrow>
             if minDistance = Infinity then Inr (distances, previous)
             else
               (let unvisited' = removeAll currentNode unvisited;
                    visited' = set_add currentNode visited
                in if currentNode = endId then Inr (distances, previous)
                   else
                     (case relax_neighbors g currentNode visited' (neighbors g currentNode)
                             (distances, previous) of
                        Inl e \<Rightarrow> Inl e
                      | Inr (distances', previous') \<Rightarrow>
                          dijkstra_loop g endId distances' previous' visited' unvisited')))
      else Inr (distances, previous))"
  by pat_completeness auto
termination
  apply (relation "measure (\<lambda>(g, endId, distances, previous, visited, unvisited). length unvisited)")
   apply simp
  apply (auto dest: select_min_member [OF sym] intro: length_removeAll_less)
  done

declare dijkstra_loop.simps [simp del]

text \<open>
  \<open>reconstructPath\<close> walks the predecessors back from \<open>endId\<close>; \<open>previous.get(id) || null\<close>
  ends the walk at \<open>undefined\<close>, at \<open>null\<close> and at the empty string. Nothing bounds the
  walk: \<open>None\<close> means that it does not end.
\<close>

definition or_null :: "string option option \<Rightarrow> string option" where
  "or_null v = (case v of Some (Some p) \<Rightarrow> if p = [] then None else Some p | _ \<Rightarrow> None)"

partial_function (option) reconstructPath_loop ::
  "(string \<times> string option) list \<Rightarrow> string \<Rightarrow> string option \<Rightarrow> string list \<Rightarrow>
   string list option" where
  "reconstructPath_loop previous startId currentId path =
     (case currentId of
        None \<Rightarrow> Some path
      | Some c \<Rightarrow>
          if c = startId then Some (c # path)
          else reconstructPath_loop previous startId (or_null (map_of previous c)) (c # path))"

declare reconstructPath_loop.simps [code]

definition reconstructPath ::
  "(string \<times> string option) list \<Rightarrow> string \<Rightarrow> string \<Rightarrow> string list option" where
  "reconstructPath previous startId endId =
     (case reconstructPath_loop previous startId (Some endId) [] of
        None \<Rightarrow> None
      | Some path \<Rightarrow>
          Some (case path of
                  [] \<Rightarrow> []
                | first # _ \<Rightarrow> if first \<noteq> startId then [] else path))"

definition init_search ::
  "TopicPathFinder \<Rightarrow> string \<Rightarrow>
   (string \<times> number) list \<times> (string \<times> string option) list \<times> string list" where
  "init_search g startId =
     fold (\<lambda>topicId (distances, previous, unvisited).
             (AList.update topicId (if topicId = startId then Finite 0 else Infinity) distances,
              AList.update topicId None previous,
              set_add topicId unvisited))
       (map fst (topics g)) ([], [], [])"

text \<open>
  The result is \<open>None\<close> when the reconstruction does not end, \<open>Some (Inl e)\<close> when \<open>e\<close> is
  raised, \<open>Some (Inr None)\<close> for \<open>null\<close> and \<open>Some (Inr (Some r))\<close> for the result \<open>r\<close>.
\<close>

definition findShortestPath ::
  "TopicPathFinder \<Rightarrow> string \<Rightarrow> string \<Rightarrow> (error + ShortestPath option) option" where
  "findShortestPath g startId endId =
     (if \<not> has (topics g) startId \<or> \<not> has (topics g) endId then Some (Inr None)
      else if startId = endId
      then Some (Inr (Some \<lparr>sp_path = [startId], sp_distance = Some (Finite 0),
                             sp_topics = [map_of (topics g) startId]\<rparr>))
      else
        (case init_search g startId of
           (distances0, previous0, unvisited0) \<Rightarrow>
             (case dijkstra_loop g endId distances0 previous0 [] unvisited0 of
                Inl e \<Rightarrow> Some (Inl e)
              | Inr (distances, previous) \<Rightarrow>
                  (case reconstructPath previous startId endId of
                     None \<Rightarrow> None
                   | Some path \<Rightarrow>
                       if length path = 0 then Some (Inr None)
                       else Some (Inr (Some \<lparr>sp_path = path,
                                               sp_distance = map_of distances endId,
                                               sp_topics = map (map_of (topics g)) path\<rparr>))))))"

section \<open>All paths\<close>

text \<open>
  \<open>dfsAllPaths\<close> pushes the current node on \<open>currentPath\<close> and adds it to \<open>visited\<close>, and
  undoes both before it returns; a call is made on a node that is not in \<open>visited\<close>. Each
  call therefore leaves the two as it found them, and they are passed down as values; the
  list \<open>allPaths\<close> is threaded through the calls.
\<close>

function dfsAllPaths ::
  "TopicPathFinder \<Rightarrow> string \<Rightarrow> string \<Rightarrow> string list \<Rightarrow> string list \<Rightarrow> string list list \<Rightarrow>
   number \<Rightarrow> string list list"
and dfs_neighbors ::
  "TopicPathFinder \<Rightarrow> string list \<Rightarrow> string \<Rightarrow> string list \<Rightarrow> string list \<Rightarrow> string list list \<Rightarrow>
   number \<Rightarrow> string list list" where
  "dfsAllPaths g currentId endId currentPath visited allPaths maxDepth =
     (if Finite (of_nat (length currentPath)) > maxDepth then allPaths
      else
        (let currentPath' = currentPath @ [currentId];
             visited' = set_add currentId visited
         in if currentId = endId then allPaths @ [currentPath']
            else dfs_neighbors g (neighbors g currentId) endId currentPath' visited' allPaths
                   maxDepth))"
| "dfs_neighbors g [] endId currentPath visited allPaths maxDepth = allPaths"
| "dfs_neighbors g (neighborId # rest) endId currentPath visited allPaths maxDepth =
     dfs_neighbors g rest endId currentPath visited
       (if neighborId \<notin> set visited
        then dfsAllPaths g neighborId endId currentPath visited allPaths maxDepth
        else allPaths)
       maxDepth"
  by pat_completeness auto

definition adjacent_ids :: "TopicPathFinder \<Rightarrow> string set" where
  "adjacent_ids g = (\<Union>ns\<in>snd ` set (adjacencyList g). set ns)"

lemma finite_adjacent_ids: "finite (adjacent_ids g)"
  by (simp add: adjacent_ids_def)

lemma neighbors_adjacent_ids: "set (neighbors g u) \<subseteq> adjacent_ids g"
proof (cases "map_of (adjacencyList g) u")
  case None
  then show ?thesis by (simp add: neighbors_def)
next
  case (Some ns)
  then have "(u, ns) \<in> set (adjacencyList g)" by (rule map_of_SomeD)
  then have "ns \<in> snd ` set (adjacencyList g)" by force
  with Some show ?thesis by (auto simp add: neighbors_def adjacent_ids_def)
qed

lemma set_set_add: "set (set_add x xs) = insert x (set xs)"
  by (auto simp add: set_add_def)

lemma card_step:
  assumes "finite U" and "finite R" and "n \<notin> V"
  shows "card (U - V - {n}) + 1 \<le> card ((U \<union> insert n R) - V)"
proof -
  define A where "A = U - V - {n}"
  have "finite A" and "n \<notin> A"
    using assms by (simp_all add: A_def)
  then have "card (insert n A) = Suc (card A)"
    by (rule card_insert_disjoint)
  moreover have "card (insert n A) \<le> card ((U \<union> insert n R) - V)"
    using assms by (intro card_mono) (auto simp add: A_def)
  ultimately show ?thesis by (simp add: A_def)
qed

termination dfsAllPaths
proof (relation "inv_image (less_than <*lex*> less_than)
    (\<lambda>x. case x of
       Inl (g, currentId, endId, currentPath, visited, allPaths, maxDepth) \<Rightarrow>
         (card (adjacent_ids g - set visited - {currentId}) + 1, 0)
     | Inr (g, ns, endId, currentPath, visited, allPaths, maxDepth) \<Rightarrow>
         (card ((adjacent_ids g \<union> set ns) - set visited), length ns + 1))", goal_cases)
  case 1
  show ?case by (intro wf_inv_image wf_lex_prod wf_less_than)
next
  case (2 g currentId endId currentPath visited allPaths maxDepth x xa)
  have "adjacent_ids g \<union> set (neighbors g currentId) - set xa =
        adjacent_ids g - set visited - {currentId}"
    using neighbors_adjacent_ids [of g currentId] 2(3) by (auto simp add: set_set_add)
  then show ?case by simp
next
  case (3 g neighborId rest endId currentPath visited allPaths maxDepth)
  from card_step [OF finite_adjacent_ids, of "set rest" neighborId "set visited" g] 3
  have "card (adjacent_ids g - set visited - {neighborId}) + 1
        \<le> card (adjacent_ids g \<union> insert neighborId (set rest) - set visited)"
    by simp
  then show ?case by auto
next
  case (4 g neighborId rest endId currentPath visited allPaths maxDepth)
  have "card (adjacent_ids g \<union> set rest - set visited)
        \<le> card (adjacent_ids g \<union> insert neighborId (set rest) - set visited)"
    by (intro card_mono) (auto simp add: finite_adjacent_ids)
  then show ?case by auto
qed

declare dfsAllPaths.simps [simp del]

fun calculatePathDistance_loop :: "TopicPathFinder \<Rightarrow> string list \<Rightarrow> rat \<Rightarrow> error + rat" where
  "calculatePathDistance_loop g (a # b # rest) totalDistance =
     (case getEdgeWeight g a b of
        Inl e \<Rightarrow> Inl e
      | Inr w \<Rightarrow> calculatePathDistance_loop g (b # rest) (totalDistance + w))"
| "calculatePathDistance_loop g path totalDistance = Inr totalDistance"

definition calculatePathDistance :: "TopicPathFinder \<Rightarrow> string list \<Rightarrow> error + rat" where
  "calculatePathDistance g path = calculatePathDistance_loop g path 0"

fun map_throws :: "('a \<Rightarrow> error + 'b) \<Rightarrow> 'a list \<Rightarrow> error + 'b list" where
  "map_throws f [] = Inr []"
| "map_throws f (x # xs) =
     (case f x of
        Inl e \<Rightarrow> Inl e
      | Inr y \<Rightarrow> (case map_throws f xs of Inl e \<Rightarrow> Inl e | Inr ys \<Rightarrow> Inr (y # ys)))"

definition findAllPaths ::
  "TopicPathFinder \<Rightarrow> string \<Rightarrow> string \<Rightarrow> number \<Rightarrow> error + ShortestPath list" where
  "findAllPaths g startId endId maxDepth =
     (if \<not> has (topics g) startId \<or> \<not> has (topics g) endId then Inr []
      else
        (let allPaths = dfsAllPaths g startId endId [] [] [] maxDepth
         in case map_throws
                   (\<lambda>path. case calculatePathDistance g path of
                              Inl e \<Rightarrow> Inl e
                            | Inr d \<Rightarrow> Inr \<lparr>sp_path = path, sp_distance = Some (Finite d),
                                              sp_topics = map (map_of (topics g)) path\<rparr>)
                   allPaths of
              Inl e \<Rightarrow> Inl e
            | Inr results \<Rightarrow> Inr (sort_key sp_distance results)))"

fun expand_neighbors ::
  "TopicPathFinder \<Rightarrow> number \<Rightarrow> PathNode \<Rightarrow> string list \<Rightarrow> string list \<Rightarrow>
   (string \<times> number) list \<times> PathNode list \<Rightarrow> error + (string \<times> number) list \<times> PathNode list" where
  "expand_neighbors g maxDistance current visited [] (distances, queue) = Inr (distances, queue)"
| "expand_neighbors g maxDistance current visited (neighborId # rest) (distances, queue) =
     (if neighborId \<notin> set visited
      then
        (case getEdgeWeight g (pn_topicId current) neighborId of
           Inl e \<Rightarrow> Inl e
         | Inr w \<Rightarrow>
             (let newDistance = add_finite (pn_distance current) w
              in if newDistance \<le> maxDistance \<and>
                    (case map_of distances neighborId of
                       None \<Rightarrow> True
                     | Some d \<Rightarrow> newDistance < d)
                 then expand_neighbors g maxDistance current visited rest
                        (AList.update neighborId newDistance distances,
                         queue @ [\<lparr>pn_topicId = neighborId, pn_distance = newDistance,
                                    pn_parent = Some (pn_topicId current)\<rparr>])
                 else expand_neighbors g maxDistance current visited rest (distances, queue)))
      else expand_neighbors g maxDistance current visited rest (distances, queue))"

lemma expand_neighbors_queue:
  "expand_neighbors g maxDistance current visited ns (distances, queue) = Inr (distances', queue') \<Longrightarrow>
   pn_topicId ` set queue' \<subseteq> pn_topicId ` set queue \<union> set ns"
proof (induction ns arbitrary: distances queue)
  case Nil
  then show ?case by simp
next
  case (Cons n ns)
  show ?case
  proof (cases "n \<notin> set visited")
    case False
    with Cons.prems have "expand_neighbors g maxDistance current visited ns (distances, queue) = Inr (distances', queue')"
      by simp
    from Cons.IH [OF this] show ?thesis by auto
  next
    case True
    with Cons.prems obtain w where w: "getEdgeWeight g (pn_topicId current) n = Inr w"
      by (auto split: sum.splits)
    let ?nd = "add_finite (pn_distance current) w"
    show ?thesis
    proof (cases "?nd \<le> maxDistance \<and> (case map_of distances n of None \<Rightarrow> True | Some d \<Rightarrow> ?nd < d)")
      case c: True
      with Cons.prems True w have "expand_neighbors g maxDistance current visited ns
         (AList.update n ?nd distances,
          queue @ [\<lparr>pn_topicId = n, pn_distance = ?nd, pn_parent = Some (pn_topicId current)\<rparr>])
         = Inr (distances', queue')"
        by (simp add: Let_def)
      from Cons.IH [OF this] show ?thesis by auto
    next
      case c: False
      with Cons.prems True w have "expand_neighbors g maxDistance current visited ns (distances, queue) = Inr (distances', queue')"
        by (simp add: Let_def)
      from Cons.IH [OF this] show ?thesis by auto
    qed
  qed
qed

function within_loop ::
  "TopicPathFinder \<Rightarrow> number \<Rightarrow> (string \<times> number) list \<Rightarrow> PathNode list \<Rightarrow> string list \<Rightarrow>
   error + (string \<times> number) list" where
  "within_loop g maxDistance distances queue visited =
     (case queue of
        [] \<Rightarrow> Inr distances
      | current # queue' \<Rightarrow>
          if pn_topicId current \<in> set visited
          then within_loop g maxDistance distances queue' visited
          else
            (let visited' = set_add (pn_topicId current) visited
             in if pn_distance current \<ge> maxDistance
                then within_loop g maxDistance distances queue' visited'
                else
                  (case expand_neighbors g maxDistance current visited'
                          (neighbors g (pn_topicId current)) (distances, queue') of
                     Inl e \<Rightarrow> Inl e
                   | Inr (distances', queue'') \<Rightarrow>
                       within_loop g maxDistance distances' queue'' visited')))"
  by pat_completeness auto
termination
proof (relation "inv_image (less_than <*lex*> less_than)
    (\<lambda>(g, maxDistance, distances, queue, visited).
       (card ((adjacent_ids g \<union> pn_topicId ` set queue) - set visited), length queue))", goal_cases)
  case 1
  show ?case by (intro wf_inv_image wf_lex_prod wf_less_than)
next
  case (2 g maxDistance distances queue visited current queue')
  have "card (adjacent_ids g \<union> pn_topicId ` set queue' - set visited)
        \<le> card (adjacent_ids g \<union> pn_topicId ` set queue - set visited)"
    using 2 by (intro card_mono) (auto simp add: finite_adjacent_ids)
  with 2 show ?case by auto
next
  case (3 g maxDistance distances queue visited current queue' visited')
  have "adjacent_ids g \<union> pn_topicId ` set queue' - set visited'
        \<subset> adjacent_ids g \<union> pn_topicId ` set queue - set visited"
    using 3 by (auto simp add: set_set_add)
  then have "card (adjacent_ids g \<union> pn_topicId ` set queue' - set visited')
        < card (adjacent_ids g \<union> pn_topicId ` set queue - set visited)"
    by (intro psubset_card_mono) (auto simp add: finite_adjacent_ids)
  then show ?case by simp
next
  case (4 g maxDistance distances queue visited current queue' visited' x2 distances' queue'')
  have "pn_topicId ` set queue'' \<subseteq> pn_topicId ` set queue' \<union> set (neighbors g (pn_topicId current))"
    using 4 expand_neighbors_queue [of g maxDistance current visited' "neighbors g (pn_topicId current)" distances queue' distances' queue'']
    by simp
  then have "adjacent_ids g \<union> pn_topicId ` set queue'' - set visited'
        \<subset> adjacent_ids g \<union> pn_topicId ` set queue - set visited"
    using 4 neighbors_adjacent_ids [of g "pn_topicId current"] by (auto simp add: set_set_add)
  then have "card (adjacent_ids g \<union> pn_topicId ` set queue'' - set visited')
        < card (adjacent_ids g \<union> pn_topicId ` set queue - set visited)"
    by (intro psubset_card_mono) (auto simp add: finite_adjacent_ids)
  then show ?case by simp
qed

declare within_loop.simps [simp del]

definition findTopicsWithinDistance ::
  "TopicPathFinder \<Rightarrow> string \<Rightarrow> number \<Rightarrow> error + PathNode list" where
  "findTopicsWithinDistance g topicId maxDistance =
     (if \<not> has (topics g) topicId then Inr []
      else
        (case within_loop g maxDistance [(topicId, Finite 0)]
                [\<lparr>pn_topicId = topicId, pn_distance = Finite 0, pn_parent = None\<rparr>] [] of
           Inl e \<Rightarrow> Inl e
         | Inr distances \<Rightarrow>
             Inr (sort_key pn_distance
                    (filter (\<lambda>node. pn_distance node \<le> maxDistance)
                       (map (\<lambda>(id, distance).
                               \<lparr>pn_topicId = id, pn_distance = distance, pn_parent = None\<rparr>)
                          distances)))))"

lemma fold_set_add: "distinct acc \<Longrightarrow> distinct (fold set_add xs acc) \<and> set (fold set_add xs acc) = set xs \<union> set acc"
  by (induction xs arbitrary: acc) (auto simp: set_add_def)

lemma distinct_set_add: "distinct xs \<Longrightarrow> distinct (set_add x xs)"
  by (simp add: set_add_def)

section \<open>Vocabulary of the properties\<close>

text \<open>
  The walk along \<open>parentTopicId\<close> that starts at \<open>currentId\<close> ends within \<open>n\<close> steps: it
  reaches \<open>undefined\<close> or the empty string. An id that is not in the map has no parent.
\<close>

fun walk_ends :: "TopicPathFinder \<Rightarrow> nat \<Rightarrow> string option \<Rightarrow> bool" where
  "walk_ends g n None = True"
| "walk_ends g 0 (Some c) = (c = [])"
| "walk_ends g (Suc n) (Some c) =
     (c = [] \<or> walk_ends g n (case map_of (topics g) c of None \<Rightarrow> None | Some topic \<Rightarrow> parentTopicId topic))"

text \<open>
  What \<open>buildGraph\<close> establishes: the keys of both maps are the same and without
  duplicates, every topic is stored under its own id, every neighbour set is without
  duplicates, and every edge joins two known ids and is present in both directions.
\<close>

definition graph_inv :: "TopicPathFinder \<Rightarrow> bool" where
  "graph_inv g \<longleftrightarrow>
     distinct (map fst (topics g)) \<and>
     map fst (adjacencyList g) = map fst (topics g) \<and>
     (\<forall>k t. map_of (topics g) k = Some t \<longrightarrow> id_topic t = k) \<and>
     (\<forall>u. distinct (neighbors g u)) \<and>
     (\<forall>u v. v \<in> set (neighbors g u) \<longrightarrow> has (topics g) u \<and> has (topics g) v \<and> u \<in> set (neighbors g v))"

text \<open>
  Topic lists on which the properties are evaluated: the hierarchy and the two-topic cycle of
  the unit tests of the path finder, a list with a parent id that belongs to no topic, and a
  list whose names and contents share or do not share their vocabulary.
\<close>

definition sampleTopics :: "ITopicData list" where
  "sampleTopics =
     [\<lparr>id_topic = ''root'', name = ''Root Topic'', content = ''Root content'', parentTopicId = None\<rparr>,
      \<lparr>id_topic = ''child1'', name = ''Child 1'', content = ''Child 1 content'', parentTopicId = Some ''root''\<rparr>,
      \<lparr>id_topic = ''child2'', name = ''Child 2'', content = ''Child 2 content'', parentTopicId = Some ''root''\<rparr>,
      \<lparr>id_topic = ''grandchild1'', name = ''Grandchild 1'', content = ''Grandchild 1 content'', parentTopicId = Some ''child1''\<rparr>,
      \<lparr>id_topic = ''grandchild2'', name = ''Grandchild 2'', content = ''Grandchild 2 content'', parentTopicId = Some ''child2''\<rparr>]"

definition circularTopics :: "ITopicData list" where
  "circularTopics =
     [\<lparr>id_topic = ''topic1'', name = ''Topic 1'', content = ''Content 1'', parentTopicId = Some ''topic2''\<rparr>,
      \<lparr>id_topic = ''topic2'', name = ''Topic 2'', content = ''Content 2'', parentTopicId = Some ''topic1''\<rparr>]"

definition danglingTopics :: "ITopicData list" where
  "danglingTopics =
     [\<lparr>id_topic = ''a'', name = ''A'', content = ''first'', parentTopicId = None\<rparr>,
      \<lparr>id_topic = ''b'', name = ''B'', content = ''second'', parentTopicId = Some ''ghost''\<rparr>]"

definition vocabularyTopics :: "ITopicData list" where
  "vocabularyTopics =
     [\<lparr>id_topic = ''a'', name = ''Alpha'', content = ''shared words'', parentTopicId = None\<rparr>,
      \<lparr>id_topic = ''b'', name = ''Beta'', content = ''Shared, WORDS!'', parentTopicId = Some ''a''\<rparr>,
      \<lparr>id_topic = ''c'', name = ''Alpha'', content = ''words: shared alpha'', parentTopicId = Some ''a''\<rparr>,
      \<lparr>id_topic = ''d'', name = ''Alpha'', content = ''of the'', parentTopicId = Some ''a''\<rparr>,
      \<lparr>id_topic = ''e'', name = ''to'', content = ''be'', parentTopicId = Some ''a''\<rparr>,
      \<lparr>id_topic = ''f'', name = ''or'', content = ''be'', parentTopicId = Some ''e''\<rparr>]"

text \<open>
  The weight of a path: the sum of the weights of its edges.
\<close>

definition edge_weight :: "TopicPathFinder \<Rightarrow> string \<Rightarrow> string \<Rightarrow> rat" where
  "edge_weight g a b = (case getEdgeWeight g a b of Inl e \<Rightarrow> 0 | Inr w \<Rightarrow> w)"

fun path_weight :: "TopicPathFinder \<Rightarrow> string list \<Rightarrow> rat" where
  "path_weight g (a # b # rest) = edge_weight g a b + path_weight g (b # rest)"
| "path_weight g p = 0"

text \<open>
  A path of known ids without a repeated node and with at most \<open>maxDepth\<close> edges.
\<close>

definition simple_bounded :: "TopicPathFinder \<Rightarrow> number \<Rightarrow> string list \<Rightarrow> bool" where
  "simple_bounded g maxDepth p \<longleftrightarrow>
     distinct p \<and> p \<noteq> [] \<and> Finite (of_nat (length p - 1)) \<le> maxDepth \<and>
     (\<forall>x\<in>set p. has (topics g) x)"

text \<open>
  A walk follows the adjacency sets from each node to the next; a path from \<open>a\<close> to \<open>b\<close> is a
  walk that starts at \<open>a\<close> and ends at \<open>b\<close>.
\<close>

fun walk :: "TopicPathFinder \<Rightarrow> string list \<Rightarrow> bool" where
  "walk g (a # b # rest) = (b \<in> set (neighbors g a) \<and> walk g (b # rest))"
| "walk g p = True"

definition is_path :: "TopicPathFinder \<Rightarrow> string \<Rightarrow> string \<Rightarrow> string list \<Rightarrow> bool" where
  "is_path g a b p \<longleftrightarrow> p \<noteq> [] \<and> hd p = a \<and> last p = b \<and> walk g p"




text \<open>
  The distance recorded for a node, \<open>Infinity\<close> for a node without an entry.
\<close>

definition dist_of :: "(string \<times> number) list \<Rightarrow> string \<Rightarrow> number" where
  "dist_of distances v = (case map_of distances v of None \<Rightarrow> Infinity | Some d \<Rightarrow> d)"

text \<open>
  The list \<open>p\<close> leads from \<open>s\<close> to \<open>v\<close> along the predecessor map, read backwards as
  \<open>reconstructPath\<close> reads it; every node before \<open>v\<close> is settled and is not the empty string.
 
\<close>

inductive pchain ::
  "(string \<times> string option) list \<Rightarrow> string set \<Rightarrow> string \<Rightarrow> string \<Rightarrow> string list \<Rightarrow> bool"
  for previous :: "(string \<times> string option) list" and settled :: "string set" and s :: string where
  pchain_start: "pchain previous settled s s [s]"
| pchain_step: "pchain previous settled s u p \<Longrightarrow> u \<in> settled \<Longrightarrow> u \<noteq> [] \<Longrightarrow> v \<noteq> s \<Longrightarrow>
     map_of previous v = Some (Some u) \<Longrightarrow> pchain previous settled s v (p @ [v])"

text \<open>
  The invariant of the search at the head of the loop, for the start \<open>s\<close>: both maps have the
  nodes as keys; settled and open nodes split the nodes; the start has distance 0; a finite
  distance is the weight of the walk that the predecessors describe, and a node at
  \<open>Infinity\<close> has no predecessor; every edge that leaves a settled node is relaxed; no
  settled node is farther than an open one.
\<close>

definition dj_base ::
  "TopicPathFinder \<Rightarrow> string \<Rightarrow> (string \<times> number) list \<Rightarrow> (string \<times> string option) list \<Rightarrow>
   string list \<Rightarrow> string list \<Rightarrow> bool" where
  "dj_base g s distances previous visited unvisited \<longleftrightarrow>
     map fst distances = map fst (topics g) \<and>
     map fst previous = map fst (topics g) \<and>
     set unvisited \<union> set visited = fst ` set (topics g) \<and>
     set unvisited \<inter> set visited = {} \<and>
     map_of distances s = Some (Finite 0) \<and>
     (\<forall>v d. map_of distances v = Some d \<longrightarrow>
        (d = Infinity \<and> map_of previous v = Some None) \<or>
        (\<exists>p. d = Finite (path_weight g p) \<and> pchain previous (set visited) s v p \<and> walk g p))"

definition dj_inv ::
  "TopicPathFinder \<Rightarrow> string \<Rightarrow> (string \<times> number) list \<Rightarrow> (string \<times> string option) list \<Rightarrow>
   string list \<Rightarrow> string list \<Rightarrow> bool" where
  "dj_inv g s distances previous visited unvisited \<longleftrightarrow>
     dj_base g s distances previous visited unvisited \<and>
     (\<forall>u\<in>set visited. \<forall>v\<in>set (neighbors g u).
        dist_of distances v \<le> add_finite (dist_of distances u) (edge_weight g u v)) \<and>
     (\<forall>u\<in>set visited. \<forall>v\<in>set unvisited. dist_of distances u \<le> dist_of distances v)"

text \<open>
  The invariant while the neighbours of the node \<open>c\<close>, settled at distance \<open>m\<close>, are relaxed:
  the edges from \<open>c\<close> to the neighbours in \<open>rest\<close> are still to be relaxed.
\<close>

definition relax_inv ::
  "TopicPathFinder \<Rightarrow> string \<Rightarrow> string \<Rightarrow> rat \<Rightarrow> (string \<times> number) list \<Rightarrow>
   (string \<times> string option) list \<Rightarrow> string list \<Rightarrow> string list \<Rightarrow> string list \<Rightarrow> bool" where
  "relax_inv g s c m distances previous visited unvisited rest \<longleftrightarrow>
     dj_base g s distances previous visited unvisited \<and>
     c \<in> set visited \<and> map_of distances c = Some (Finite m) \<and>
     (\<forall>u\<in>set visited. \<forall>v\<in>set (neighbors g u). (u = c \<longrightarrow> v \<notin> set rest) \<longrightarrow>
        dist_of distances v \<le> add_finite (dist_of distances u) (edge_weight g u v)) \<and>
     (\<forall>u\<in>set visited. dist_of distances u \<le> Finite m) \<and>
     (\<forall>v\<in>set unvisited. Finite m \<le> dist_of distances v)"

text \<open>
  What the search hands to the reconstruction, for the end node \<open>e\<close>: either \<open>e\<close> is at
  \<open>Infinity\<close>, has no predecessor and cannot be reached from \<open>s\<close>, or the predecessors describe
  a path from \<open>s\<close> to \<open>e\<close> whose weight is the recorded distance and is minimal.
\<close>

definition sp_outcome ::
  "TopicPathFinder \<Rightarrow> string \<Rightarrow> string \<Rightarrow> (string \<times> number) list \<Rightarrow>
   (string \<times> string option) list \<Rightarrow> bool" where
  "sp_outcome g s e distances previous \<longleftrightarrow>
     (map_of distances e = Some Infinity \<and> map_of previous e = Some None \<and>
      (\<forall>p. \<not> is_path g s e p)) \<or>
     (\<exists>p settled. map_of distances e = Some (Finite (path_weight g p)) \<and>
        pchain previous settled s e p \<and> walk g p \<and>
        (\<forall>q. is_path g s e q \<longrightarrow> path_weight g p \<le> path_weight g q))"

text \<open>
  A topic list with a topic whose id is the empty string.
\<close>

definition emptyIdTopics :: "ITopicData list" where
  "emptyIdTopics =
     [\<lparr>id_topic = '''', name = ''Nameless'', content = ''first'', parentTopicId = Some ''p''\<rparr>,
      \<lparr>id_topic = ''p'', name = ''Parent'', content = ''second'', parentTopicId = None\<rparr>]"


text \<open>
  The distance of a node in the search tree: the sum of the edge weights down from the
  start.
\<close>

inductive tdist ::
  "(string \<Rightarrow> string option) \<Rightarrow> TopicPathFinder \<Rightarrow> string \<Rightarrow> string \<Rightarrow> rat \<Rightarrow> bool"
  for pre :: "string \<Rightarrow> string option" and g :: TopicPathFinder and s :: string where
  tdist_start: "tdist pre g s s 0"
| tdist_step: "tdist pre g s u d \<Longrightarrow> pre v = Some u \<Longrightarrow> tdist pre g s v (d + edge_weight g u v)"







section \<open>The graph that is built\<close>

lemma topics_link_topic: "topics (link_topic t g) = topics g"
  by (simp add: link_topic_def split: option.splits)

lemma topics_fold_link: "topics (fold link_topic ts g) = topics g"
  by (induction ts arbitrary: g) (simp_all add: topics_link_topic)

lemma topics_fold_init:
  "topics (fold init_topic ts g) = fold (\<lambda>t m. AList.update (id_topic t) t m) ts (topics g)"
  by (induction ts arbitrary: g) (simp_all add: init_topic_def)

lemma adj_fold_init:
  "adjacencyList (fold init_topic ts g) = fold (\<lambda>t m. AList.update (id_topic t) [] m) ts (adjacencyList g)"
  by (induction ts arbitrary: g) (simp_all add: init_topic_def)

lemma fold_update_distinct:
  "distinct (map fst m) \<Longrightarrow> distinct (map fst (fold (\<lambda>t m. AList.update (f t) (h t) m) ts m))"
  by (induction ts arbitrary: m) (simp_all add: distinct_update)

lemma fold_update_keys:
  "map fst (fold (\<lambda>t m. AList.update (f t) (h t) m) ts m) =
   fold (\<lambda>t ks. if f t \<in> set ks then ks else ks @ [f t]) ts (map fst m)"
  by (induction ts arbitrary: m) (simp_all add: update_keys)

lemma fold_update_dom:
  "fst ` set (fold (\<lambda>t m. AList.update (f t) (h t) m) ts m) = f ` set ts \<union> fst ` set m"
  by (induction ts arbitrary: m) (auto simp add: dom_update)

lemma fold_update_id:
  "(\<And>k t. map_of m k = Some t \<Longrightarrow> id_topic t = k) \<Longrightarrow>
   map_of (fold (\<lambda>t m. AList.update (id_topic t) t m) ts m) k = Some t \<Longrightarrow> id_topic t = k"
proof (induction ts arbitrary: m)
  case Nil
  then show ?case by simp
next
  case (Cons a ts)
  show ?case
  proof (rule Cons.IH [of "AList.update (id_topic a) a m"])
    show "map_of (fold (\<lambda>t. AList.update (id_topic t) t) ts (AList.update (id_topic a) a m)) k = Some t"
      using Cons.prems(2) by simp
  next
    fix k' t' assume "map_of (AList.update (id_topic a) a m) k' = Some t'"
    then show "id_topic t' = k'"
      using Cons.prems(1) [of k' t'] by (auto simp add: update_conv' split: if_splits)
  qed
qed

lemma fold_update_empty:
  "(\<And>k ns. map_of m k = Some ns \<Longrightarrow> ns = []) \<Longrightarrow>
   map_of (fold (\<lambda>t m. AList.update (id_topic t) [] m) ts m) k = Some ns \<Longrightarrow> ns = []"
proof (induction ts arbitrary: m)
  case Nil
  then show ?case by simp
next
  case (Cons a ts)
  show ?case
  proof (rule Cons.IH [of "AList.update (id_topic a) [] m"])
    show "map_of (fold (\<lambda>t. AList.update (id_topic t) []) ts (AList.update (id_topic a) [] m)) k = Some ns"
      using Cons.prems(2) by simp
  next
    fix k' ns' assume "map_of (AList.update (id_topic a) [] m) k' = Some ns'"
    then show "ns' = []"
      using Cons.prems(1) [of k' ns'] by (auto simp add: update_conv' split: if_splits)
  qed
qed

lemma has_iff: "has m k \<longleftrightarrow> k \<in> fst ` set m"
  by (simp add: has_def map_of_eq_None_iff)

lemma neighbors_adj_add:
  "neighbors (g\<lparr>adjacencyList := adj_add k x (adjacencyList g)\<rparr>) u =
     (if u = k \<and> has (adjacencyList g) k then set_add x (neighbors g u) else neighbors g u)"
  by (auto simp add: neighbors_def adj_add_def update_conv' has_def split: option.splits)

lemma keys_adj_add: "map fst (adj_add k x adj) = map fst adj"
proof (cases "map_of adj k")
  case None
  then show ?thesis by (simp add: adj_add_def)
next
  case (Some s)
  then have "k \<in> fst ` set adj"
    by (metis domI dom_map_of_conv_image_fst)
  with Some show ?thesis by (simp add: adj_add_def update_keys)
qed

lemma graph_inv_link:
  assumes "graph_inv g" and "has (topics g) (id_topic t)"
  shows "graph_inv (link_topic t g)"
proof (cases "parentTopicId t")
  case None
  then show ?thesis using assms by (simp add: link_topic_def)
next
  case (Some p)
  show ?thesis
  proof (cases "p \<noteq> [] \<and> has (topics g) p")
    case False
    then show ?thesis using assms Some by (auto simp add: link_topic_def)
  next
    case True
    let ?c = "id_topic t"
    let ?g1 = "g\<lparr>adjacencyList := adj_add p ?c (adjacencyList g)\<rparr>"
    let ?g2 = "?g1\<lparr>adjacencyList := adj_add ?c p (adjacencyList ?g1)\<rparr>"
    have eq: "link_topic t g = ?g2"
      using True Some by (simp add: link_topic_def)
    have keys: "map fst (adjacencyList g) = map fst (topics g)"
      using assms by (simp add: graph_inv_def)
    have hasp: "has (adjacencyList g) p" and hasc: "has (adjacencyList g) ?c"
      using True assms(2) keys by (simp_all add: has_iff flip: set_map)
    have hasc1: "has (adjacencyList ?g1) ?c"
      using hasc by (simp add: has_iff keys_adj_add flip: set_map)
    have n1: "neighbors ?g1 u = (if u = p then set_add ?c (neighbors g u) else neighbors g u)" for u
      using hasp by (simp add: neighbors_adj_add)
    have n2: "neighbors ?g2 u = (if u = ?c then set_add p (neighbors ?g1 u) else neighbors ?g1 u)" for u
      using hasc1 neighbors_adj_add [where g = ?g1 and k = ?c and x = p and u = u] by simp
    have t2: "topics ?g2 = topics g" by simp
    have k2: "map fst (adjacencyList ?g2) = map fst (topics g)"
      using keys by (simp add: keys_adj_add)
    have d: "distinct (neighbors g u)" for u
      using assms by (simp add: graph_inv_def)
    have s: "v \<in> set (neighbors g u) \<Longrightarrow> has (topics g) u \<and> has (topics g) v \<and> u \<in> set (neighbors g v)" for u v
      using assms(1) unfolding graph_inv_def by blast
    have "graph_inv ?g2"
      unfolding graph_inv_def t2 k2
    proof (intro conjI allI impI)
      show "distinct (map fst (topics g))" using assms by (simp add: graph_inv_def)
      show "map fst (topics g) = map fst (topics g)" by simp
      show "\<And>k t. map_of (topics g) k = Some t \<Longrightarrow> id_topic t = k"
        using assms by (simp add: graph_inv_def)
      show "distinct (neighbors ?g2 u)" for u
        unfolding n2 n1 using d by (simp add: distinct_set_add)
    next
      fix u v assume "v \<in> set (neighbors ?g2 u)"
      then have "v \<in> set (neighbors g u) \<or> (u = p \<and> v = ?c) \<or> (u = ?c \<and> v = p)"
        unfolding n2 n1 by (auto simp add: set_set_add split: if_splits)
      then consider "v \<in> set (neighbors g u)" | "u = p \<and> v = ?c" | "u = ?c \<and> v = p"
        by blast
      then have "has (topics g) u \<and> has (topics g) v \<and> u \<in> set (neighbors ?g2 v)"
      proof cases
        case 1
        with s [of v u] show ?thesis
          unfolding n2 n1 by (auto simp add: set_set_add)
      next
        case 2
        with True assms(2) show ?thesis
          unfolding n2 n1 by (simp add: set_set_add)
      next
        case 3
        with True assms(2) show ?thesis
          unfolding n2 n1 by (simp add: set_set_add)
      qed
      then show "has (topics g) u" "has (topics g) v" "u \<in> set (neighbors ?g2 v)"
        by simp_all
    qed
    with eq show ?thesis by simp
  qed
qed

lemma graph_inv_fold_link:
  "graph_inv g \<Longrightarrow> id_topic ` set ts \<subseteq> fst ` set (topics g) \<Longrightarrow> graph_inv (fold link_topic ts g)"
proof (induction ts arbitrary: g)
  case Nil
  then show ?case by simp
next
  case (Cons a ts)
  have "graph_inv (link_topic a g)"
    using Cons.prems by (intro graph_inv_link) (auto simp add: has_iff)
  moreover have "id_topic ` set ts \<subseteq> fst ` set (topics (link_topic a g))"
    using Cons.prems by (simp add: topics_link_topic)
  ultimately show ?case using Cons.IH by simp
qed

lemma topics_buildGraph:
  "topics (buildGraph ts) = fold (\<lambda>t m. AList.update (id_topic t) t m) ts []"
  by (simp add: buildGraph_def topics_fold_link topics_fold_init)

lemma keys_buildGraph: "fst ` set (topics (buildGraph ts)) = id_topic ` set ts"
  by (simp add: topics_buildGraph fold_update_dom)

lemma graph_inv_init: "graph_inv (fold init_topic ts \<lparr>topics = [], adjacencyList = []\<rparr>)"
proof -
  let ?g = "fold init_topic ts \<lparr>topics = [], adjacencyList = []\<rparr>"
  have n: "neighbors ?g u = []" for u
    using fold_update_empty [of "[]" ts u]
    by (auto simp add: neighbors_def adj_fold_init split: option.splits)
  have i: "map_of (topics ?g) k = Some t \<Longrightarrow> id_topic t = k" for k t
    using fold_update_id [of "[]" ts k t] by (simp add: topics_fold_init)
  have d: "distinct (map fst (topics ?g))"
    by (simp add: topics_fold_init fold_update_distinct)
  have k: "map fst (adjacencyList ?g) = map fst (topics ?g)"
    by (simp add: topics_fold_init adj_fold_init fold_update_keys)
  show ?thesis
    unfolding graph_inv_def
  proof (intro conjI allI impI)
    show "distinct (map fst (topics ?g))" by (rule d)
    show "map fst (adjacencyList ?g) = map fst (topics ?g)" by (rule k)
    show "\<And>k t. map_of (topics ?g) k = Some t \<Longrightarrow> id_topic t = k" by (rule i)
    show "\<And>u. distinct (neighbors ?g u)" by (simp add: n)
    show "\<And>u v. v \<in> set (neighbors ?g u) \<Longrightarrow> has (topics ?g) u" by (simp add: n)
    show "\<And>u v. v \<in> set (neighbors ?g u) \<Longrightarrow> has (topics ?g) v" by (simp add: n)
    show "\<And>u v. v \<in> set (neighbors ?g u) \<Longrightarrow> u \<in> set (neighbors ?g v)" by (simp add: n)
  qed
qed

lemma graph_inv_buildGraph: "graph_inv (buildGraph ts)"
  unfolding buildGraph_def
  by (intro graph_inv_fold_link graph_inv_init) (simp add: topics_fold_init fold_update_dom)

lemma getAncestors_loop_ends:
  "walk_ends g n cur \<Longrightarrow> \<exists>r. getAncestors_loop g acc cur = Some r"
proof (induction n arbitrary: acc cur)
  case 0
  then show ?case
    by (cases cur) (simp_all add: getAncestors_loop.simps)
next
  case (Suc n)
  show ?case
  proof (cases cur)
    case None
    then show ?thesis by (simp add: getAncestors_loop.simps)
  next
    case (Some c)
    show ?thesis
    proof (cases "c = []")
      case True
      with Some show ?thesis by (simp add: getAncestors_loop.simps)
    next
      case False
      with Some Suc.prems
      have "walk_ends g n (case map_of (topics g) c of None \<Rightarrow> None | Some topic \<Rightarrow> parentTopicId topic)"
        by simp
      from Suc.IH [OF this, of "acc @ [c]"] Some False show ?thesis
        by (subst getAncestors_loop.simps) simp
    qed
  qed
qed

lemma getTopicDepth_loop_ends:
  "walk_ends g n (Some c) \<Longrightarrow> \<exists>d. getTopicDepth_loop g depth c = Some d"
proof (induction n arbitrary: depth c)
  case 0
  then show ?case by (simp add: getTopicDepth_loop.simps)
next
  case (Suc n)
  show ?case
  proof (cases "c = []")
    case True
    then show ?thesis by (simp add: getTopicDepth_loop.simps)
  next
    case False
    show ?thesis
    proof (cases "map_of (topics g) c")
      case None
      with False show ?thesis by (subst getTopicDepth_loop.simps) simp
    next
      case (Some topic)
      show ?thesis
      proof (cases "parentTopicId topic")
        case None
        with False Some show ?thesis by (subst getTopicDepth_loop.simps) simp
      next
        case p: (Some p)
        show ?thesis
        proof (cases "p = []")
          case True
          with False Some p show ?thesis by (subst getTopicDepth_loop.simps) simp
        next
          case pne: False
          from Suc.prems False Some p have "walk_ends g n (Some p)" by simp
          from Suc.IH [OF this, of "depth + 1"] False Some p pne show ?thesis
            by (subst getTopicDepth_loop.simps) simp
        qed
      qed
    qed
  qed
qed

text \<open>Conversely, a walk that returns has ended.\<close>

lemma getAncestors_loop_returns:
  assumes "getAncestors_loop g acc cur = Some r"
  shows "\<exists>n. walk_ends g n cur"
proof (rule getAncestors_loop.raw_induct
    [where P = "\<lambda>g acc cur r. \<exists>n. walk_ends g n cur", OF _ assms])
  fix f :: "TopicPathFinder \<Rightarrow> string list \<Rightarrow> string option \<Rightarrow> string list option"
  fix g acc cur r
  assume IH: "\<And>g acc cur r. f g acc cur = Some r \<Longrightarrow> \<exists>n. walk_ends g n cur"
  assume body: "(case cur of None \<Rightarrow> Some acc
     | Some c \<Rightarrow> if c = [] then Some acc
         else f g (acc @ [c])
                (case map_of (topics g) c of None \<Rightarrow> None | Some topic \<Rightarrow> parentTopicId topic)) = Some r"
  show "\<exists>n. walk_ends g n cur"
  proof (cases cur)
    case None
    then show ?thesis by (auto intro: exI [of _ 0])
  next
    case (Some c)
    show ?thesis
    proof (cases "c = []")
      case True
      with Some show ?thesis by (auto intro: exI [of _ 0])
    next
      case False
      with body Some
      have "f g (acc @ [c]) (case map_of (topics g) c of None \<Rightarrow> None | Some topic \<Rightarrow> parentTopicId topic) = Some r"
        by simp
      from IH [OF this] obtain n where
        "walk_ends g n (case map_of (topics g) c of None \<Rightarrow> None | Some topic \<Rightarrow> parentTopicId topic)" ..
      then have "walk_ends g (Suc n) cur" using Some by simp
      then show ?thesis ..
    qed
  qed
qed

lemma walk_ends_mono: "walk_ends g n cur \<Longrightarrow> walk_ends g (Suc n) cur"
proof (induction g n cur rule: walk_ends.induct)
  case (1 g n)
  then show ?case by simp
next
  case (2 g c)
  then show ?case by simp
next
  case (3 g n c)
  then show ?case by auto
qed

lemma getAncestors_loop_elements:
  "walk_ends g n cur \<Longrightarrow> getAncestors_loop g acc cur = Some r \<Longrightarrow>
   \<forall>x\<in>set r. x \<in> set acc \<or> walk_ends g n (Some x)"
proof (induction n arbitrary: acc cur r)
  case 0
  then show ?case
    by (cases cur) (auto simp add: getAncestors_loop.simps)
next
  case (Suc n)
  show ?case
  proof (cases cur)
    case None
    with Suc.prems show ?thesis by (simp add: getAncestors_loop.simps)
  next
    case (Some c)
    show ?thesis
    proof (cases "c = []")
      case True
      with Some Suc.prems show ?thesis by (simp add: getAncestors_loop.simps)
    next
      case False
      let ?next = "case map_of (topics g) c of None \<Rightarrow> None | Some topic \<Rightarrow> parentTopicId topic"
      from False Some Suc.prems have w: "walk_ends g n ?next" by simp
      from False Some Suc.prems(2) have r: "getAncestors_loop g (acc @ [c]) ?next = Some r"
        by (subst (asm) getAncestors_loop.simps) simp
      from Suc.IH [OF w r] have ih: "\<forall>x\<in>set r. x \<in> set (acc @ [c]) \<or> walk_ends g n (Some x)" .
      have c: "walk_ends g (Suc n) (Some c)" using Suc.prems(1) Some by simp
      show ?thesis
      proof
        fix x assume "x \<in> set r"
        with ih consider "x \<in> set acc" | "x = c" | "walk_ends g n (Some x)" by auto
        then show "x \<in> set acc \<or> walk_ends g (Suc n) (Some x)"
        proof cases
          case 1
          then show ?thesis by simp
        next
          case 2
          with c show ?thesis by blast
        next
          case 3
          then show ?thesis using walk_ends_mono [of g n "Some x"] by blast
        qed
      qed
    qed
  qed
qed

lemma map_returns_Some:
  "(\<And>x. x \<in> set xs \<Longrightarrow> \<exists>y. f x = Some y) \<Longrightarrow> \<exists>ys. map_returns f xs = Some ys"
proof (induction xs)
  case Nil
  then show ?case by simp
next
  case (Cons a xs)
  from Cons.prems [of a] obtain y where "f a = Some y" by auto
  moreover from Cons obtain ys where "map_returns f xs = Some ys" by auto
  ultimately show ?case by simp
qed

lemma closest_loop_Some:
  "(\<And>x. x \<in> set xs \<Longrightarrow> \<exists>d. getTopicDepth g x = Some d) \<Longrightarrow>
   \<exists>r. closest_loop g xs c m = Some r"
proof (induction xs arbitrary: c m)
  case Nil
  then show ?case by simp
next
  case (Cons a xs)
  from Cons.prems [of a] obtain d where d: "getTopicDepth g a = Some d" by auto
  have "\<exists>r. closest_loop g xs c' m' = Some r" for c' m'
    using Cons by simp
  with d show ?case by simp
qed

lemma getTopicDepth_loop_returns:
  assumes "getTopicDepth_loop g depth c = Some d"
  shows "\<exists>n. walk_ends g n (Some c)"
proof (rule getTopicDepth_loop.raw_induct
    [where P = "\<lambda>g depth c d. \<exists>n. walk_ends g n (Some c)", OF _ assms])
  fix f :: "TopicPathFinder \<Rightarrow> nat \<Rightarrow> string \<Rightarrow> nat option"
  fix g depth c d
  assume IH: "\<And>g depth c d. f g depth c = Some d \<Longrightarrow> \<exists>n. walk_ends g n (Some c)"
  assume body: "(if c = [] then Some depth
      else (case map_of (topics g) c of
              None \<Rightarrow> Some depth
            | Some topic \<Rightarrow>
                (case parentTopicId topic of
                   None \<Rightarrow> Some depth
                 | Some p \<Rightarrow>
                     if p = [] then Some depth
                     else f g (depth + 1) p))) = Some d"
  show "\<exists>n. walk_ends g n (Some c)"
  proof (cases "c = []")
    case True
    then have "walk_ends g 0 (Some c)" by simp
    then show ?thesis ..
  next
    case False
    show ?thesis
    proof (cases "map_of (topics g) c")
      case None
      with False have "walk_ends g (Suc 0) (Some c)" by simp
      then show ?thesis ..
    next
      case (Some topic)
      show ?thesis
      proof (cases "parentTopicId topic")
        case None
        with False Some have "walk_ends g (Suc 0) (Some c)" by simp
        then show ?thesis ..
      next
        case p: (Some p)
        show ?thesis
        proof (cases "p = []")
          case True
          with False Some p have "walk_ends g (Suc 0) (Some c)" by simp
          then show ?thesis ..
        next
          case pne: False
          with body False Some p have "f g (depth + 1) p = Some d" by simp
          from IH [OF this] obtain n where "walk_ends g n (Some p)" ..
          with False Some p have "walk_ends g (Suc n) (Some c)" by simp
          then show ?thesis ..
        qed
      qed
    qed
  qed
qed

lemma map_returns_SomeD:
  "map_returns f xs = Some ys \<Longrightarrow> x \<in> set xs \<Longrightarrow> \<exists>y. f x = Some y"
  by (induction xs arbitrary: ys) (auto split: option.splits)

lemma getGraphStats_returns_iff:
  "(\<exists>st. getGraphStats g = Some st) \<longleftrightarrow>
   (\<forall>k\<in>fst ` set (topics g). \<exists>n. walk_ends g n (Some k))"
proof
  assume "\<exists>st. getGraphStats g = Some st"
  then obtain ds where ds: "map_returns (getTopicDepth g) (map fst (topics g)) = Some ds"
    by (auto simp add: getGraphStats_def Let_def split: option.splits)
  show "\<forall>k\<in>fst ` set (topics g). \<exists>n. walk_ends g n (Some k)"
  proof
    fix k assume "k \<in> fst ` set (topics g)"
    then have "k \<in> set (map fst (topics g))" by simp
    from map_returns_SomeD [OF ds this] obtain d where "getTopicDepth g k = Some d" ..
    then show "\<exists>n. walk_ends g n (Some k)"
      unfolding getTopicDepth_def by (rule getTopicDepth_loop_returns)
  qed
next
  assume a: "\<forall>k\<in>fst ` set (topics g). \<exists>n. walk_ends g n (Some k)"
  have "\<exists>ds. map_returns (getTopicDepth g) (map fst (topics g)) = Some ds"
  proof (rule map_returns_Some)
    fix x assume "x \<in> set (map fst (topics g))"
    with a obtain n where "walk_ends g n (Some x)" by auto
    then show "\<exists>y. getTopicDepth g x = Some y"
      unfolding getTopicDepth_def by (rule getTopicDepth_loop_ends)
  qed
  then show "\<exists>st. getGraphStats g = Some st"
    by (auto simp add: getGraphStats_def Let_def)
qed

lemma findClosestCommonAncestor_returns_iff:
  "(\<exists>r. findClosestCommonAncestor g topicId1 topicId2 = Some r) \<longleftrightarrow>
   (has (topics g) topicId1 \<and> has (topics g) topicId2 \<longrightarrow>
      (\<exists>n. walk_ends g n (Some topicId1)) \<and> (\<exists>n. walk_ends g n (Some topicId2)))"
proof (cases "has (topics g) topicId1 \<and> has (topics g) topicId2")
  case False
  then show ?thesis by (auto simp add: findClosestCommonAncestor_def)
next
  case True
  show ?thesis
  proof
    assume "\<exists>r. findClosestCommonAncestor g topicId1 topicId2 = Some r"
    with True obtain a1 a2 where "getAncestors g topicId1 = Some a1" "getAncestors g topicId2 = Some a2"
      by (auto simp add: findClosestCommonAncestor_def split: option.splits)
    then show "has (topics g) topicId1 \<and> has (topics g) topicId2 \<longrightarrow>
      (\<exists>n. walk_ends g n (Some topicId1)) \<and> (\<exists>n. walk_ends g n (Some topicId2))"
      unfolding getAncestors_def by (auto dest: getAncestors_loop_returns)
  next
    assume "has (topics g) topicId1 \<and> has (topics g) topicId2 \<longrightarrow>
      (\<exists>n. walk_ends g n (Some topicId1)) \<and> (\<exists>n. walk_ends g n (Some topicId2))"
    with True obtain n1 n2 where w1: "walk_ends g n1 (Some topicId1)" and w2: "walk_ends g n2 (Some topicId2)"
      by auto
    from getAncestors_loop_ends [OF w1, of "[]"] obtain a1 where a1: "getAncestors g topicId1 = Some a1"
      by (auto simp add: getAncestors_def)
    from getAncestors_loop_ends [OF w2, of "[]"] obtain a2 where a2: "getAncestors g topicId2 = Some a2"
      by (auto simp add: getAncestors_def)
    have e: "\<exists>d. getTopicDepth g x = Some d" if "x \<in> set a1" for x
    proof -
      from getAncestors_loop_elements [OF w1, of "[]" a1] a1 that have "walk_ends g n1 (Some x)"
        by (simp add: getAncestors_def)
      then show ?thesis
        unfolding getTopicDepth_def by (rule getTopicDepth_loop_ends)
    qed
    show "\<exists>r. findClosestCommonAncestor g topicId1 topicId2 = Some r"
    proof (cases "filter (\<lambda>ancestor. ancestor \<in> set a2) a1")
      case Nil
      with True a1 a2 show ?thesis by (simp add: findClosestCommonAncestor_def)
    next
      case (Cons first others)
      have sub: "set (first # others) \<subseteq> set a1"
        unfolding Cons [symmetric] by auto
      then obtain d where d: "getTopicDepth g first = Some d" using e [of first] by auto
      have "\<exists>r. closest_loop g (first # others) first d = Some r"
        using sub e by (intro closest_loop_Some) blast
      with True a1 a2 Cons d show ?thesis
        by (auto simp add: findClosestCommonAncestor_def)
    qed
  qed
qed

section \<open>Parent cycles\<close>

text \<open>
  C2, as amended. \<open>getAncestors\<close> and \<open>getTopicDepth\<close> have no guard against a node that is
  visited again. \<open>findClosestCommonAncestor\<close> returns exactly when one of the two ids is
  unknown or the parent chains of both ids end, and \<open>getGraphStats\<close> returns exactly when
  the parent chain of every topic ends; no error is raised. On a topic list with a cycle of
  parent links neither of them returns.
\<close>

theorem parent_walks_return_iff:
  "((\<exists>r. findClosestCommonAncestor (buildGraph ts) topicId1 topicId2 = Some r) \<longleftrightarrow>
      (has (topics (buildGraph ts)) topicId1 \<and> has (topics (buildGraph ts)) topicId2 \<longrightarrow>
         (\<exists>n. walk_ends (buildGraph ts) n (Some topicId1)) \<and>
         (\<exists>n. walk_ends (buildGraph ts) n (Some topicId2))))
   \<and> ((\<exists>st. getGraphStats (buildGraph ts) = Some st) \<longleftrightarrow>
        (\<forall>t\<in>set ts. \<exists>n. walk_ends (buildGraph ts) n (Some (id_topic t))))"
  using findClosestCommonAncestor_returns_iff [of "buildGraph ts" topicId1 topicId2]
    getGraphStats_returns_iff [of "buildGraph ts"]
  by (simp add: keys_buildGraph)

lemma circular_walk: "\<not> walk_ends (buildGraph circularTopics) n (Some ''topic1'') \<and>
   \<not> walk_ends (buildGraph circularTopics) n (Some ''topic2'')"
proof (induction n)
  case 0
  then show ?case by simp
next
  case (Suc n)
  have "map_of (topics (buildGraph circularTopics)) ''topic1'' = Some (circularTopics ! 0)"
    "map_of (topics (buildGraph circularTopics)) ''topic2'' = Some (circularTopics ! 1)"
    by (simp_all add: topics_buildGraph circularTopics_def)
  with Suc show ?case by (simp add: circularTopics_def)
qed

text \<open>
  C2 fails on the two topics that are each other's parent: neither function returns.
\<close>

theorem parent_cycle_counterexample:
  "findClosestCommonAncestor (buildGraph circularTopics) ''topic1'' ''topic2'' = None
   \<and> getGraphStats (buildGraph circularTopics) = None"
proof -
  have "\<not> (\<exists>r. findClosestCommonAncestor (buildGraph circularTopics) ''topic1'' ''topic2'' = Some r)"
    unfolding findClosestCommonAncestor_returns_iff
    by (simp add: circular_walk has_iff keys_buildGraph) (simp add: circularTopics_def)
  moreover have "\<not> (\<exists>st. getGraphStats (buildGraph circularTopics) = Some st)"
    unfolding getGraphStats_returns_iff keys_buildGraph
    using circular_walk by (auto simp add: circularTopics_def)
  ultimately show ?thesis by simp
qed

text \<open>On the hierarchy of the unit tests every parent chain ends, and both functions return.\<close>

theorem parent_walks_return_iff_witness:
  "(\<exists>r. findClosestCommonAncestor (buildGraph sampleTopics) ''grandchild1'' ''grandchild2'' = Some r)
   \<and> (\<exists>st. getGraphStats (buildGraph sampleTopics) = Some st)"
proof -
  have t: "topics (buildGraph sampleTopics) = map (\<lambda>t. (id_topic t, t)) sampleTopics"
    by (simp add: topics_buildGraph sampleTopics_def)
  have "\<forall>t\<in>set sampleTopics. walk_ends (buildGraph sampleTopics) 3 (Some (id_topic t))"
    by code_simp
  then have a: "\<forall>t\<in>set sampleTopics. \<exists>n. walk_ends (buildGraph sampleTopics) n (Some (id_topic t))"
    by blast
  then have b: "(\<exists>n. walk_ends (buildGraph sampleTopics) n (Some ''grandchild1'')) \<and>
         (\<exists>n. walk_ends (buildGraph sampleTopics) n (Some ''grandchild2''))"
    by (simp add: sampleTopics_def)
  from a b show ?thesis
    using parent_walks_return_iff [of sampleTopics "''grandchild1''" "''grandchild2''"]
    by blast
qed

lemma distinct_new_Set [simp]: "distinct (new_Set xs)"
  using fold_set_add [of "[]" xs] by (simp add: new_Set_def)

lemma set_new_Set [simp]: "set (new_Set xs) = set xs"
  using fold_set_add [of "[]" xs] by (simp add: new_Set_def)

lemma length_new_Set: "length (new_Set xs) = card (set xs)"
  using distinct_card [of "new_Set xs"] by simp

lemma similarity_card:
  "calculateContentSimilarity a b =
     (let A = set (extractWords (name a @ '' '' @ content a));
          B = set (extractWords (name b @ '' '' @ content b))
      in if A = {} \<or> B = {} then 0 else of_nat (card (A \<inter> B)) / of_nat (card (A \<union> B)))"
proof -
  have "set (filter (\<lambda>word. word \<in> set ys) xs) = set xs \<inter> set ys" for xs ys :: "string list"
    by auto
  then show ?thesis
    by (simp add: calculateContentSimilarity_def Let_def length_new_Set)
qed

lemma similarity_sym: "calculateContentSimilarity a b = calculateContentSimilarity b a"
  by (auto simp add: similarity_card Let_def Int_commute Un_commute)

lemma similarity_range: "0 \<le> calculateContentSimilarity a b \<and> calculateContentSimilarity a b \<le> 1"
proof -
  have "(of_nat (card (A \<inter> B)) :: rat) / of_nat (card (A \<union> B)) \<le> 1"
    if "finite A" "finite B" for A B :: "string set"
  proof -
    have "card (A \<inter> B) \<le> card (A \<union> B)"
      using that by (intro card_mono) auto
    then have "(of_nat (card (A \<inter> B)) :: rat) \<le> of_nat (card (A \<union> B))"
      by simp
    then show ?thesis
      by (auto simp add: divide_le_eq_1)
  qed
  then show ?thesis
    by (simp add: similarity_card Let_def)
qed

lemma weight_of_range: "1 \<le> weight_of a ta b tb \<and> weight_of a ta b tb \<le> 3 / 2"
  using similarity_range [of ta tb] by (simp add: weight_of_def Let_def)

lemma weight_of_sym: "weight_of a ta b tb = weight_of b tb a ta"
  by (simp add: weight_of_def Let_def similarity_sym [of ta tb])

section \<open>Range and symmetry of the edge weight\<close>

text \<open>
  C5. For every two topics \<open>a\<close> and \<open>b\<close> of the graph, \<open>getEdgeWeight\<close> returns a weight
  between 1 and 1.5, and the same weight in both directions.
\<close>

theorem getEdgeWeight_range_sym:
  assumes "has (topics g) a" and "has (topics g) b"
  shows "\<exists>w. getEdgeWeight g a b = Inr w \<and> 1 \<le> w \<and> w \<le> 3 / 2 \<and> getEdgeWeight g b a = Inr w"
proof -
  from assms obtain ta tb where "map_of (topics g) a = Some ta" "map_of (topics g) b = Some tb"
    by (auto simp: has_def)
  then show ?thesis
    using weight_of_range [of a ta b tb] weight_of_sym [of a ta b tb]
    by (simp add: getEdgeWeight_def)
qed

theorem getEdgeWeight_range_sym_witness:
  "has (topics (buildGraph sampleTopics)) ''root'' \<and> has (topics (buildGraph sampleTopics)) ''child1''
   \<and> (\<exists>w. getEdgeWeight (buildGraph sampleTopics) ''root'' ''child1'' = Inr w \<and> 1 \<le> w \<and> w \<le> 3 / 2
          \<and> getEdgeWeight (buildGraph sampleTopics) ''child1'' ''root'' = Inr w)"
proof -
  have h: "has (topics (buildGraph sampleTopics)) ''root''"
    "has (topics (buildGraph sampleTopics)) ''child1''"
    by (simp_all add: has_iff keys_buildGraph sampleTopics_def)
  from getEdgeWeight_range_sym [OF h] h show ?thesis by blast
qed

section \<open>Unknown ids\<close>

text \<open>
  C7. An id that is not a node of the graph, passed as either argument of
  \<open>findShortestPath\<close>, \<open>findAllPaths\<close> or \<open>findClosestCommonAncestor\<close>, or to
  \<open>findTopicsWithinDistance\<close>, gives \<open>null\<close> or the empty list; no error is raised and
  every call returns.
\<close>

theorem unknown_id_no_result:
  assumes "\<not> has (topics g) unknownId"
  shows "findShortestPath g unknownId other = Some (Inr None)
     \<and> findShortestPath g other unknownId = Some (Inr None)
     \<and> findAllPaths g unknownId other maxDepth = Inr []
     \<and> findAllPaths g other unknownId maxDepth = Inr []
     \<and> findClosestCommonAncestor g unknownId other = Some None
     \<and> findClosestCommonAncestor g other unknownId = Some None
     \<and> findTopicsWithinDistance g unknownId maxDistance = Inr []"
  using assms
  by (simp add: findShortestPath_def findAllPaths_def findClosestCommonAncestor_def
      findTopicsWithinDistance_def)

theorem unknown_id_no_result_witness:
  "\<not> has (topics (buildGraph sampleTopics)) ''non-existent''
   \<and> findShortestPath (buildGraph sampleTopics) ''root'' ''non-existent'' = Some (Inr None)
   \<and> findAllPaths (buildGraph sampleTopics) ''non-existent'' ''root'' (Finite 10) = Inr []
   \<and> findClosestCommonAncestor (buildGraph sampleTopics) ''root'' ''non-existent'' = Some None
   \<and> findTopicsWithinDistance (buildGraph sampleTopics) ''non-existent'' (Finite 1) = Inr []"
proof -
  have h: "\<not> has (topics (buildGraph sampleTopics)) ''non-existent''"
    by (simp add: has_iff keys_buildGraph sampleTopics_def)
  from unknown_id_no_result [OF h, of "''root''" "Finite 10" "Finite 1"] h
  show ?thesis by simp
qed

section \<open>All paths from a node to itself\<close>

text \<open>
  C9. For an id \<open>x\<close> of the graph and a \<open>maxDepth\<close> of at least 0, \<open>findAllPaths\<close> from \<open>x\<close>
  to \<open>x\<close> returns exactly one result: the path \<open>[x]\<close> with distance 0.
\<close>

theorem findAllPaths_same_node:
  assumes "has (topics g) x" and "Finite 0 \<le> maxDepth"
  shows "findAllPaths g x x maxDepth =
     Inr [\<lparr>sp_path = [x], sp_distance = Some (Finite 0), sp_topics = [map_of (topics g) x]\<rparr>]"
proof -
  from assms(2) have "\<not> maxDepth < Finite 0" by simp
  then have "dfsAllPaths g x x [] [] [] maxDepth = [[x]]"
    by (simp add: dfsAllPaths.simps)
  with assms(1) show ?thesis
    by (simp add: findAllPaths_def calculatePathDistance_def)
qed

theorem findAllPaths_same_node_witness:
  "has (topics (buildGraph sampleTopics)) ''root'' \<and> Finite 0 \<le> Finite 10 \<and>
   findAllPaths (buildGraph sampleTopics) ''root'' ''root'' (Finite 10) =
     Inr [\<lparr>sp_path = [''root''], sp_distance = Some (Finite 0),
            sp_topics = [map_of (topics (buildGraph sampleTopics)) ''root'']\<rparr>]"
proof -
  have h: "has (topics (buildGraph sampleTopics)) ''root''"
    by (simp add: has_iff keys_buildGraph sampleTopics_def)
  have l: "Finite 0 \<le> Finite 10"
    by (simp add: less_eq_number_def)
  from findAllPaths_same_node [OF h l] h l show ?thesis by simp
qed

section \<open>Root nodes\<close>

lemma rootNodes_set:
  assumes "graph_inv g" and "getGraphStats g = Some st"
  shows "set (gs_rootNodes st) =
    {k. \<exists>topic. map_of (topics g) k = Some topic \<and> \<not> truthy (parentTopicId topic)}"
proof -
  from assms(1) have d: "distinct (map fst (topics g))"
    and i: "\<And>k t. map_of (topics g) k = Some t \<Longrightarrow> id_topic t = k"
    by (simp_all add: graph_inv_def)
  from assms(2) have "gs_rootNodes st =
      map id_topic (filter (\<lambda>topic. \<not> truthy (parentTopicId topic)) (map snd (topics g)))"
    by (auto simp add: getGraphStats_def Let_def split: option.splits)
  then have "set (gs_rootNodes st) =
      {id_topic t |t. t \<in> snd ` set (topics g) \<and> \<not> truthy (parentTopicId t)}"
    by auto
  also have "\<dots> = {k. \<exists>topic. map_of (topics g) k = Some topic \<and> \<not> truthy (parentTopicId topic)}"
  proof (intro set_eqI iffI)
    fix k assume "k \<in> {id_topic t |t. t \<in> snd ` set (topics g) \<and> \<not> truthy (parentTopicId t)}"
    then obtain t k' where t: "(k', t) \<in> set (topics g)" "k = id_topic t" "\<not> truthy (parentTopicId t)"
      by auto
    from t(1) d have "map_of (topics g) k' = Some t" by simp
    with i [of k' t] t show "k \<in> {k. \<exists>topic. map_of (topics g) k = Some topic \<and> \<not> truthy (parentTopicId topic)}"
      by auto
  next
    fix k assume "k \<in> {k. \<exists>topic. map_of (topics g) k = Some topic \<and> \<not> truthy (parentTopicId topic)}"
    then obtain t where t: "map_of (topics g) k = Some t" "\<not> truthy (parentTopicId t)" by auto
    from t(1) have "(k, t) \<in> set (topics g)" by (rule map_of_SomeD)
    then have "t \<in> snd ` set (topics g)" by force
    with i [OF t(1)] t(2) show "k \<in> {id_topic t |t. t \<in> snd ` set (topics g) \<and> \<not> truthy (parentTopicId t)}"
      by auto
  qed
  finally show ?thesis .
qed

text \<open>
  C3, as amended. When the parent chain of every topic ends, \<open>getGraphStats\<close> returns, and
  its root nodes are exactly the ids of the topics whose \<open>parentTopicId\<close> is absent or the
  empty string. A topic whose parent id belongs to no topic is not among them.
\<close>

theorem rootNodes_absent_parent:
  assumes "\<forall>t\<in>set ts. \<exists>n. walk_ends (buildGraph ts) n (Some (id_topic t))"
  shows "\<exists>st. getGraphStats (buildGraph ts) = Some st \<and>
     set (gs_rootNodes st) =
       {k. \<exists>topic. map_of (topics (buildGraph ts)) k = Some topic \<and> \<not> truthy (parentTopicId topic)}"
proof -
  from assms have "\<exists>st. getGraphStats (buildGraph ts) = Some st"
    by (simp add: getGraphStats_returns_iff keys_buildGraph)
  then obtain st where st: "getGraphStats (buildGraph ts) = Some st" ..
  from rootNodes_set [OF graph_inv_buildGraph st] st show ?thesis by blast
qed

text \<open>
  C3 fails on a topic whose parent id belongs to no topic: the topic \<open>b\<close> has the unresolved
  parent \<open>ghost\<close>, and the root nodes are \<open>a\<close> alone.
\<close>

theorem rootNodes_counterexample:
  "map_of (topics (buildGraph danglingTopics)) ''b'' = Some (danglingTopics ! 1)
   \<and> parentTopicId (danglingTopics ! 1) = Some ''ghost''
   \<and> \<not> has (topics (buildGraph danglingTopics)) ''ghost''
   \<and> map_option gs_rootNodes (getGraphStats (buildGraph danglingTopics)) = Some [''a'']"
  by code_simp

theorem rootNodes_absent_parent_witness:
  "\<exists>st. getGraphStats (buildGraph sampleTopics) = Some st \<and>
     set (gs_rootNodes st) =
       {k. \<exists>topic. map_of (topics (buildGraph sampleTopics)) k = Some topic \<and> \<not> truthy (parentTopicId topic)}"
proof -
  have "\<forall>t\<in>set sampleTopics. walk_ends (buildGraph sampleTopics) 3 (Some (id_topic t))"
    by code_simp
  then have "\<forall>t\<in>set sampleTopics. \<exists>n. walk_ends (buildGraph sampleTopics) n (Some (id_topic t))"
    by blast
  from rootNodes_absent_parent [OF this] show ?thesis .
qed

section \<open>Extreme weights\<close>

lemma similarity_one:
  assumes "set (extractWords (name a @ '' '' @ content a)) = set (extractWords (name b @ '' '' @ content b))"
    and "extractWords (name a @ '' '' @ content a) \<noteq> []"
  shows "calculateContentSimilarity a b = 1"
proof -
  let ?A = "set (extractWords (name a @ '' '' @ content a))"
  have "?A \<noteq> {}" using assms(2) by simp
  then have "card ?A \<noteq> 0" by simp
  with assms(1) \<open>?A \<noteq> {}\<close> show ?thesis
    by (simp add: similarity_card Let_def)
qed

lemma similarity_zero:
  assumes "set (extractWords (name a @ '' '' @ content a)) \<inter> set (extractWords (name b @ '' '' @ content b)) = {}"
  shows "calculateContentSimilarity a b = 0"
  using assms by (simp add: similarity_card Let_def)

lemma split_ws_rest:
  assumes "dropWhile (\<lambda>c. \<not> is_space c) s \<noteq> []"
  shows "split_ws s = takeWhile (\<lambda>c. \<not> is_space c) s #
           split_ws (dropWhile is_space (dropWhile (\<lambda>c. \<not> is_space c) s))"
  by (subst split_ws.simps) (simp only: Let_def assms if_False)

lemma split_ws_last:
  assumes "dropWhile (\<lambda>c. \<not> is_space c) s = []"
  shows "split_ws s = [takeWhile (\<lambda>c. \<not> is_space c) s]"
  by (subst split_ws.simps) (simp only: Let_def assms if_True refl)

lemma split_ws_pieces:
  "p \<in> set (split_ws s) \<Longrightarrow> set p \<subseteq> set s \<and> (\<forall>c\<in>set p. \<not> is_space c)"
proof (induction s arbitrary: p rule: split_ws.induct)
  case (1 s)
  let ?piece = "takeWhile (\<lambda>c. \<not> is_space c) s"
  let ?rest = "dropWhile (\<lambda>c. \<not> is_space c) s"
  have piece: "set ?piece \<subseteq> set s \<and> (\<forall>c\<in>set ?piece. \<not> is_space c)"
    by (auto dest: set_takeWhileD)
  show ?case
  proof (cases "?rest = []")
    case True
    then have "split_ws s = [?piece]"
      by (rule split_ws_last)
    with "1.prems" have "p = ?piece" by simp
    with piece show ?thesis by simp
  next
    case False
    then have "split_ws s = ?piece # split_ws (dropWhile is_space ?rest)"
      by (rule split_ws_rest)
    with "1.prems" have "p = ?piece \<or> p \<in> set (split_ws (dropWhile is_space ?rest))"
      by (simp only: set_simps insert_iff)
    then show ?thesis
    proof
      assume "p = ?piece"
      with piece show ?thesis by simp
    next
      assume "p \<in> set (split_ws (dropWhile is_space ?rest))"
      from "1.IH" [OF refl refl False this]
      have "set p \<subseteq> set (dropWhile is_space ?rest) \<and> (\<forall>c\<in>set p. \<not> is_space c)" .
      moreover have "set (dropWhile is_space ?rest) \<subseteq> set s"
        by (meson set_dropWhileD subsetI)
      ultimately show ?thesis by blast
    qed
  qed
qed

lemma toLowerCase_char_not_upper:
  "\<not> (65 \<le> (of_char (toLowerCase_char c) :: nat) \<and> (of_char (toLowerCase_char c) :: nat) \<le> 90)"
proof -
  have lt: "(of_char c :: nat) < 256" by (rule nat_of_char_less_256)
  show ?thesis
  proof (cases "(65 \<le> (of_char c :: nat) \<and> (of_char c :: nat) \<le> 90) \<or> (192 \<le> (of_char c :: nat) \<and> (of_char c :: nat) \<le> 222 \<and> (of_char c :: nat) \<noteq> 215)")
    case True
    then have "(of_char (toLowerCase_char c) :: nat) = (of_char c + 32) mod 256"
      by (simp add: toLowerCase_char_def Let_def)
    with True lt show ?thesis by auto
  next
    case False
    then show ?thesis by (auto simp add: toLowerCase_char_def Let_def)
  qed
qed

lemma extractWords_significant:
  assumes "w \<in> set (extractWords text)"
  shows "length w > 2 \<and> w \<notin> set stopWords \<and>
         (\<forall>c\<in>set w. is_word_char c \<and> \<not> (65 \<le> (of_char c :: nat) \<and> (of_char c :: nat) \<le> 90))"
proof -
  define f where "f = (\<lambda>c. if is_word_char c \<or> is_space c then c else CHR '' '')"
  from assms have w: "w \<in> set (split_ws (map f (map toLowerCase_char text)))"
    "length w > 2" "w \<notin> set stopWords"
    by (simp_all add: extractWords_def f_def)
  note p = split_ws_pieces [OF w(1)]
  have "is_word_char c \<and> \<not> (65 \<le> (of_char c :: nat) \<and> (of_char c :: nat) \<le> 90)" if "c \<in> set w" for c
  proof -
    from that p have "c \<in> set (map f (map toLowerCase_char text))" by blast
    then obtain c0 where c0: "c = f (toLowerCase_char c0)" by auto
    have ns: "\<not> is_space c" using that p by blast
    have "is_space (CHR '' '')" by (simp add: is_space_def)
    with c0 ns have "c = toLowerCase_char c0" "is_word_char c"
      by (auto simp add: f_def split: if_splits)
    with toLowerCase_char_not_upper [of c0] show ?thesis by simp
  qed
  with w show ?thesis by blast
qed

text \<open>
  C6, as amended. The significant words of a topic are those of its name followed by its
  content. When the two topics have the same significant words, and at least one, the
  weight is 1; when they have none in common, the weight is 1.5. Every significant word has
  more than 2 characters, is no stop word, and consists of lower-case letters, digits and
  underscores.
\<close>

theorem weight_extremes:
  assumes "map_of (topics g) a = Some ta" and "map_of (topics g) b = Some tb"
  shows "(set (extractWords (name ta @ '' '' @ content ta)) = set (extractWords (name tb @ '' '' @ content tb))
          \<and> extractWords (name ta @ '' '' @ content ta) \<noteq> []
            \<longrightarrow> getEdgeWeight g a b = Inr 1)
       \<and> (set (extractWords (name ta @ '' '' @ content ta)) \<inter> set (extractWords (name tb @ '' '' @ content tb)) = {}
            \<longrightarrow> getEdgeWeight g a b = Inr (3 / 2))
       \<and> (\<forall>w\<in>set (extractWords (name ta @ '' '' @ content ta)).
             length w > 2 \<and> w \<notin> set stopWords \<and>
             (\<forall>c\<in>set w. is_word_char c \<and> \<not> (65 \<le> (of_char c :: nat) \<and> (of_char c :: nat) \<le> 90)))"
  using assms similarity_one [of ta tb] similarity_zero [of ta tb]
    extractWords_significant [of _ "name ta @ '' '' @ content ta"]
  by (simp add: getEdgeWeight_def weight_of_def Let_def)

text \<open>
  C6 fails when the contents alone are compared: the contents of \<open>a\<close> and \<open>b\<close> have the same
  significant words and the weight is 1.25; the contents of \<open>a\<close> and \<open>d\<close> share none and the
  weight is 4/3; the contents of \<open>e\<close> and \<open>f\<close> have the same (empty) set of significant
  words and the weight is 1.5.
\<close>

theorem weight_content_counterexample:
  "set (extractWords (content (vocabularyTopics ! 0))) = set (extractWords (content (vocabularyTopics ! 1)))
   \<and> getEdgeWeight (buildGraph vocabularyTopics) ''a'' ''b'' = Inr (5 / 4)
   \<and> set (extractWords (content (vocabularyTopics ! 0))) \<inter> set (extractWords (content (vocabularyTopics ! 3))) = {}
   \<and> getEdgeWeight (buildGraph vocabularyTopics) ''a'' ''d'' = Inr (4 / 3)
   \<and> set (extractWords (content (vocabularyTopics ! 4))) = set (extractWords (content (vocabularyTopics ! 5)))
   \<and> getEdgeWeight (buildGraph vocabularyTopics) ''e'' ''f'' = Inr (3 / 2)"
  by code_simp

theorem weight_extremes_witness:
  "getEdgeWeight (buildGraph vocabularyTopics) ''a'' ''c'' = Inr 1
   \<and> getEdgeWeight (buildGraph vocabularyTopics) ''e'' ''f'' = Inr (3 / 2)"
proof -
  have t: "map_of (topics (buildGraph vocabularyTopics)) ''a'' = Some (vocabularyTopics ! 0)"
    "map_of (topics (buildGraph vocabularyTopics)) ''c'' = Some (vocabularyTopics ! 2)"
    "map_of (topics (buildGraph vocabularyTopics)) ''e'' = Some (vocabularyTopics ! 4)"
    "map_of (topics (buildGraph vocabularyTopics)) ''f'' = Some (vocabularyTopics ! 5)"
    by (simp_all add: topics_buildGraph vocabularyTopics_def)
  have same: "set (extractWords (name (vocabularyTopics ! 0) @ '' '' @ content (vocabularyTopics ! 0))) =
      set (extractWords (name (vocabularyTopics ! 2) @ '' '' @ content (vocabularyTopics ! 2)))
      \<and> extractWords (name (vocabularyTopics ! 0) @ '' '' @ content (vocabularyTopics ! 0)) \<noteq> []"
    by code_simp
  have none: "set (extractWords (name (vocabularyTopics ! 4) @ '' '' @ content (vocabularyTopics ! 4))) \<inter>
      set (extractWords (name (vocabularyTopics ! 5) @ '' '' @ content (vocabularyTopics ! 5))) = {}"
    by code_simp
  from weight_extremes [OF t(1) t(2)] same weight_extremes [OF t(3) t(4)] none
  show ?thesis by blast
qed

section \<open>All paths: simple, bounded and sorted\<close>

lemma getEdgeWeight_edge_weight:
  "has (topics g) a \<Longrightarrow> has (topics g) b \<Longrightarrow> getEdgeWeight g a b = Inr (edge_weight g a b)"
  by (auto simp add: edge_weight_def getEdgeWeight_def has_def)

lemma calculatePathDistance_loop_weight:
  "\<forall>x\<in>set p. has (topics g) x \<Longrightarrow>
   calculatePathDistance_loop g p acc = Inr (acc + path_weight g p)"
proof (induction g p acc rule: calculatePathDistance_loop.induct)
  case (1 g a b rest totalDistance)
  then have "getEdgeWeight g a b = Inr (edge_weight g a b)"
    by (simp add: getEdgeWeight_edge_weight)
  with 1 show ?case by simp
qed simp_all

lemma calculatePathDistance_weight:
  "\<forall>x\<in>set p. has (topics g) x \<Longrightarrow> calculatePathDistance g p = Inr (path_weight g p)"
  by (simp add: calculatePathDistance_def calculatePathDistance_loop_weight)

lemma map_throws_Inr:
  "\<forall>x\<in>set xs. f x = Inr (h x) \<Longrightarrow> map_throws f xs = Inr (map h xs)"
  by (induction xs) simp_all

lemma dfs_simple_bounded:
  assumes "graph_inv g"
  shows "(\<forall>p\<in>set allPaths. simple_bounded g maxDepth p) \<Longrightarrow> distinct currentPath \<Longrightarrow>
         set currentPath \<subseteq> set visited \<Longrightarrow> currentId \<notin> set visited \<Longrightarrow>
         (\<forall>x\<in>set currentPath. has (topics g) x) \<Longrightarrow> has (topics g) currentId \<Longrightarrow>
         \<forall>p\<in>set (dfsAllPaths g currentId endId currentPath visited allPaths maxDepth).
            simple_bounded g maxDepth p"
    and "(\<forall>p\<in>set allPaths. simple_bounded g maxDepth p) \<Longrightarrow> distinct currentPath \<Longrightarrow>
         set currentPath \<subseteq> set visited \<Longrightarrow>
         (\<forall>x\<in>set currentPath. has (topics g) x) \<Longrightarrow> (\<forall>x\<in>set ns. has (topics g) x) \<Longrightarrow>
         \<forall>p\<in>set (dfs_neighbors g ns endId currentPath visited allPaths maxDepth).
            simple_bounded g maxDepth p"
  using assms
proof (induction g currentId endId currentPath visited allPaths maxDepth
    and g ns endId currentPath visited allPaths maxDepth rule: dfsAllPaths_dfs_neighbors.induct)
  case (1 g currentId endId currentPath visited allPaths maxDepth)
  show ?case
  proof (cases "Finite (of_nat (length currentPath)) > maxDepth")
    case True
    with 1(2) show ?thesis by (simp add: dfsAllPaths.simps)
  next
    case False
    let ?cp = "currentPath @ [currentId]"
    let ?vis = "set_add currentId visited"
    have new: "simple_bounded g maxDepth ?cp"
      using False 1(3-) by (auto simp add: simple_bounded_def)
    show ?thesis
    proof (cases "currentId = endId")
      case True
      with False 1(2) new show ?thesis by (simp add: dfsAllPaths.simps)
    next
      case ne: False
      have nb: "\<forall>x\<in>set (neighbors g currentId). has (topics g) x"
        using \<open>graph_inv g\<close> by (auto simp add: graph_inv_def)
      have "\<forall>p\<in>set (dfs_neighbors g (neighbors g currentId) endId ?cp ?vis allPaths maxDepth).
              simple_bounded g maxDepth p"
        using False ne 1(2-) nb
        by (intro 1(1)) (auto simp add: set_set_add)
      with False ne show ?thesis by (simp add: dfsAllPaths.simps Let_def)
    qed
  qed
next
  case (2 g endId currentPath visited allPaths maxDepth)
  then show ?case by simp
next
  case (3 g neighborId rest endId currentPath visited allPaths maxDepth)
  let ?all = "if neighborId \<notin> set visited
        then dfsAllPaths g neighborId endId currentPath visited allPaths maxDepth
        else allPaths"
  have "\<forall>p\<in>set ?all. simple_bounded g maxDepth p"
  proof (cases "neighborId \<notin> set visited")
    case True
    with 3(3-) have "\<forall>p\<in>set (dfsAllPaths g neighborId endId currentPath visited allPaths maxDepth).
            simple_bounded g maxDepth p"
      by (intro 3(1)) auto
    with True show ?thesis by simp
  next
    case False
    with 3(3) show ?thesis by simp
  qed
  with 3(3-) have "\<forall>p\<in>set (dfs_neighbors g rest endId currentPath visited ?all maxDepth).
            simple_bounded g maxDepth p"
    by (intro 3(2)) auto
  then show ?case by simp
qed

text \<open>
  C8. For two ids of the graph and any \<open>maxDepth\<close>, \<open>findAllPaths\<close> returns a list of results
  in which no path repeats a node, no path has more than \<open>maxDepth\<close> edges, the distance of
  every result is the sum of the edge weights along its path, and the distances are in
  ascending order.
\<close>

theorem findAllPaths_simple_bounded_sorted:
  assumes "has (topics (buildGraph ts)) startId" and "has (topics (buildGraph ts)) endId"
  shows "\<exists>results. findAllPaths (buildGraph ts) startId endId maxDepth = Inr results \<and>
     (\<forall>r\<in>set results.
         distinct (sp_path r) \<and> sp_path r \<noteq> [] \<and>
         Finite (of_nat (length (sp_path r) - 1)) \<le> maxDepth \<and>
         sp_distance r = Some (Finite (path_weight (buildGraph ts) (sp_path r)))) \<and>
     sorted (map sp_distance results)"
proof -
  let ?g = "buildGraph ts"
  let ?all = "dfsAllPaths ?g startId endId [] [] [] maxDepth"
  let ?mk = "\<lambda>path. \<lparr>sp_path = path, sp_distance = Some (Finite (path_weight ?g path)),
                       sp_topics = map (map_of (topics ?g)) path\<rparr>"
  have sb: "\<forall>p\<in>set ?all. simple_bounded ?g maxDepth p"
    using assms by (intro dfs_simple_bounded(1) graph_inv_buildGraph) simp_all
  then have "\<forall>p\<in>set ?all. (case calculatePathDistance ?g p of
                              Inl e \<Rightarrow> Inl e
                            | Inr d \<Rightarrow> Inr \<lparr>sp_path = p, sp_distance = Some (Finite d),
                                              sp_topics = map (map_of (topics ?g)) p\<rparr>) = Inr (?mk p)"
    by (simp add: simple_bounded_def calculatePathDistance_weight)
  then have "map_throws (\<lambda>path. case calculatePathDistance ?g path of
                              Inl e \<Rightarrow> Inl e
                            | Inr d \<Rightarrow> Inr \<lparr>sp_path = path, sp_distance = Some (Finite d),
                                              sp_topics = map (map_of (topics ?g)) path\<rparr>) ?all
              = Inr (map ?mk ?all)"
    by (rule map_throws_Inr)
  with assms have res: "findAllPaths ?g startId endId maxDepth = Inr (sort_key sp_distance (map ?mk ?all))"
    by (simp add: findAllPaths_def Let_def)
  have "\<forall>r\<in>set (sort_key sp_distance (map ?mk ?all)).
         distinct (sp_path r) \<and> sp_path r \<noteq> [] \<and>
         Finite (of_nat (length (sp_path r) - 1)) \<le> maxDepth \<and>
         sp_distance r = Some (Finite (path_weight ?g (sp_path r)))"
    using sb by (auto simp add: simple_bounded_def)
  moreover have "sorted (map sp_distance (sort_key sp_distance (map ?mk ?all)))"
    by (rule sorted_sort_key)
  ultimately show ?thesis using res by blast
qed

theorem findAllPaths_simple_bounded_sorted_witness:
  "has (topics (buildGraph sampleTopics)) ''grandchild1'' \<and>
   has (topics (buildGraph sampleTopics)) ''grandchild2'' \<and>
   (\<exists>results. findAllPaths (buildGraph sampleTopics) ''grandchild1'' ''grandchild2'' (Finite 10) = Inr results \<and>
     (\<forall>r\<in>set results.
         distinct (sp_path r) \<and> sp_path r \<noteq> [] \<and>
         Finite (of_nat (length (sp_path r) - 1)) \<le> Finite 10 \<and>
         sp_distance r = Some (Finite (path_weight (buildGraph sampleTopics) (sp_path r)))) \<and>
     sorted (map sp_distance results))"
proof -
  have h: "has (topics (buildGraph sampleTopics)) ''grandchild1''"
    "has (topics (buildGraph sampleTopics)) ''grandchild2''"
    by (simp_all add: has_iff keys_buildGraph sampleTopics_def)
  from findAllPaths_simple_bounded_sorted [OF h] h show ?thesis by blast
qed

section \<open>Numbers, walks and weights\<close>

lemma Finite_le_iff [simp]: "Finite a \<le> Finite b \<longleftrightarrow> a \<le> b"
  by (simp add: less_eq_number_def)

lemma le_Infinity [simp]: "x \<le> Infinity"
  by (cases x) (simp_all add: less_eq_number_def)

lemma NegInfinity_le [simp]: "NegInfinity \<le> x"
  by (simp add: less_eq_number_def)

lemma Infinity_le_iff [simp]: "Infinity \<le> x \<longleftrightarrow> x = Infinity"
  by (cases x) (simp_all add: less_eq_number_def)

lemma le_NegInfinity_iff [simp]: "x \<le> NegInfinity \<longleftrightarrow> x = NegInfinity"
  by (cases x) (simp_all add: less_eq_number_def)

lemma Finite_less_iff [simp]: "Finite a < Finite b \<longleftrightarrow> a < b"
  by (auto simp add: less_number_def)

lemma Finite_less_Infinity [simp]: "Finite a < Infinity"
  by (simp add: less_number_def)

lemma NegInfinity_less_Finite [simp]: "NegInfinity < Finite a"
  by (simp add: less_number_def)

lemma not_Infinity_less [simp]: "\<not> Infinity < x"
  by (cases x) (simp_all add: less_number_def)

lemma not_less_NegInfinity [simp]: "\<not> x < NegInfinity"
  by (cases x) (simp_all add: less_number_def)

lemma walk_snoc: "p \<noteq> [] \<Longrightarrow> walk g (p @ [v]) \<longleftrightarrow> walk g p \<and> v \<in> set (neighbors g (last p))"
  by (induction g p rule: walk.induct) simp_all

lemma path_weight_snoc:
  "p \<noteq> [] \<Longrightarrow> path_weight g (p @ [v]) = path_weight g p + edge_weight g (last p) v"
  by (induction g p rule: path_weight.induct) simp_all

lemma edge_weight_nonneg: "0 \<le> edge_weight g a b"
proof (cases "getEdgeWeight g a b")
  case (Inl e)
  then show ?thesis by (simp add: edge_weight_def)
next
  case (Inr w)
  then have "1 \<le> w"
    using weight_of_range by (auto simp add: getEdgeWeight_def split: option.splits)
  with Inr show ?thesis by (simp add: edge_weight_def)
qed

lemma edge_weight_ge_1:
  "has (topics g) a \<Longrightarrow> has (topics g) b \<Longrightarrow> 1 \<le> edge_weight g a b"
  using weight_of_range by (auto simp add: edge_weight_def getEdgeWeight_def has_def)

lemma path_weight_nonneg: "0 \<le> path_weight g p"
  by (induction g p rule: path_weight.induct) (simp_all add: edge_weight_nonneg)



lemma graph_inv_neighbors:
  "graph_inv g \<Longrightarrow> v \<in> set (neighbors g u) \<Longrightarrow>
   has (topics g) u \<and> has (topics g) v \<and> u \<in> set (neighbors g v)"
  unfolding graph_inv_def by blast

lemma walk_known:
  "graph_inv g \<Longrightarrow> walk g p \<Longrightarrow> p \<noteq> [] \<Longrightarrow> has (topics g) (hd p) \<Longrightarrow>
   \<forall>x\<in>set p. has (topics g) x"
proof (induction g p rule: walk.induct)
  case (1 g a b rest)
  from 1(3) have e: "b \<in> set (neighbors g a)" and w: "walk g (b # rest)" by simp_all
  from e 1(2) have "has (topics g) b"
    by (simp add: graph_inv_neighbors)
  with 1(1) [OF 1(2) w] 1(5) show ?case by simp
qed simp_all

lemma is_path_known:
  "graph_inv g \<Longrightarrow> has (topics g) a \<Longrightarrow> is_path g a b p \<Longrightarrow> has (topics g) b"
  using walk_known [of g p] by (auto simp add: is_path_def)

section \<open>Topics within a distance\<close>





lemma insort_key_map_set:
  "set (map h (insort_key f x xs)) = insert (h x) (set (map h xs))"
  by (simp add: set_insort_key)



section \<open>Shortest paths: the search\<close>

lemma add_finite_mono: "a \<le> b \<Longrightarrow> add_finite a w \<le> add_finite b w"
  by (cases a; cases b) simp_all

lemma add_finite_ge: "0 \<le> w \<Longrightarrow> a \<le> add_finite a w"
  by (cases a) simp_all

lemma alist_update_append:
  "k \<notin> fst ` set al \<Longrightarrow> AList.update k v al = al @ [(k, v)]"
  by (induction al) auto

lemma alist_update_keys_same:
  "k \<in> fst ` set al \<Longrightarrow> map fst (AList.update k v al) = map fst al"
  by (simp add: update_keys)

lemma init_search_fold:
  "distinct ks \<Longrightarrow> set ks \<inter> fst ` set d = {} \<Longrightarrow> set ks \<inter> fst ` set p = {} \<Longrightarrow>
   set ks \<inter> set u = {} \<Longrightarrow>
   fold (\<lambda>topicId (distances, previous, unvisited).
             (AList.update topicId (if topicId = startId then Finite 0 else Infinity) distances,
              AList.update topicId None previous,
              set_add topicId unvisited)) ks (d, p, u) =
   (d @ map (\<lambda>k. (k, if k = startId then Finite 0 else Infinity)) ks,
    p @ map (\<lambda>k. (k, None)) ks, u @ ks)"
proof (induction ks arbitrary: d p u)
  case Nil
  then show ?case by simp
next
  case (Cons k ks)
  let ?d = "d @ [(k, if k = startId then Finite 0 else Infinity)]"
  let ?p = "p @ [(k, None)]"
  let ?u = "u @ [k]"
  from Cons.prems have a: "AList.update k (if k = startId then Finite 0 else Infinity) d = ?d"
    "AList.update k None p = ?p" "set_add k u = ?u"
    by (simp_all add: alist_update_append set_add_def)
  from Cons.prems have b: "distinct ks" "set ks \<inter> fst ` set ?d = {}" "set ks \<inter> fst ` set ?p = {}"
    "set ks \<inter> set ?u = {}"
    by auto
  from Cons.IH [OF b] a show ?case by simp
qed

lemma init_search_eq:
  "distinct (map fst (topics g)) \<Longrightarrow>
   init_search g startId =
     (map (\<lambda>k. (k, if k = startId then Finite 0 else Infinity)) (map fst (topics g)),
      map (\<lambda>k. (k, None)) (map fst (topics g)), map fst (topics g))"
  unfolding init_search_def
  using init_search_fold [of "map fst (topics g)" "[]" "[]" "[]" startId] by simp

lemma select_min_spec:
  "select_min distances unvisited currentNode minDistance = (r, m) \<Longrightarrow>
   m \<le> minDistance \<and> (\<forall>u\<in>set unvisited. \<forall>d. map_of distances u = Some d \<longrightarrow> m \<le> d) \<and>
   ((r = currentNode \<and> m = minDistance) \<or>
    (\<exists>c\<in>set unvisited. r = Some c \<and> map_of distances c = Some m \<and> m < minDistance))"
proof (induction unvisited arbitrary: currentNode minDistance)
  case Nil
  then show ?case by simp
next
  case (Cons nodeId rest)
  show ?case
  proof (cases "map_of distances nodeId")
    case None
    with Cons.prems have "select_min distances rest currentNode minDistance = (r, m)" by simp
    from Cons.IH [OF this] None show ?thesis by auto
  next
    case (Some distance)
    show ?thesis
    proof (cases "distance < minDistance")
      case True
      with Some Cons.prems have "select_min distances rest (Some nodeId) distance = (r, m)" by simp
      from Cons.IH [OF this] Some True show ?thesis by auto
    next
      case False
      with Some Cons.prems have "select_min distances rest currentNode minDistance = (r, m)" by simp
      from Cons.IH [OF this] Some False show ?thesis by auto
    qed
  qed
qed

lemma pchain_ends: "pchain P V s v p \<Longrightarrow> p \<noteq> [] \<and> hd p = s \<and> last p = v"
  by (induction rule: pchain.induct) (auto simp add: hd_append)

lemma pchain_mono: "pchain P V s v p \<Longrightarrow> V \<subseteq> V' \<Longrightarrow> pchain P V' s v p"
  by (induction rule: pchain.induct) (auto intro: pchain.intros)

lemma pchain_update:
  "pchain P V s v p \<Longrightarrow> n \<notin> V \<Longrightarrow> n \<noteq> v \<Longrightarrow> pchain (AList.update n y P) V s v p"
proof (induction rule: pchain.induct)
  case pchain_start
  show ?case by (rule pchain.pchain_start)
next
  case (pchain_step u p v)
  from pchain_step.hyps(2) pchain_step.prems(1) have "n \<noteq> u" by auto
  with pchain_step.IH pchain_step.prems(1) have "pchain (AList.update n y P) V s u p" by simp
  moreover have "map_of (AList.update n y P) v = Some (Some u)"
    using pchain_step.hyps(5) pchain_step.prems(2) by (simp add: update_conv')
  ultimately show ?case
    using pchain_step.hyps(2,3,4) by (intro pchain.pchain_step)
qed

lemma reconstructPath_loop_pchain:
  "pchain P V s v p \<Longrightarrow> reconstructPath_loop P s (Some v) acc = Some (p @ acc)"
proof (induction arbitrary: acc rule: pchain.induct)
  case pchain_start
  show ?case by (subst reconstructPath_loop.simps) simp
next
  case (pchain_step u p v)
  have "reconstructPath_loop P s (Some v) acc = reconstructPath_loop P s (Some u) (v # acc)"
    using pchain_step.hyps(3,4,5) by (subst reconstructPath_loop.simps) (simp add: or_null_def)
  with pchain_step.IH [of "v # acc"] show ?case by simp
qed

lemma reconstructPath_pchain:
  assumes "pchain P V s v p"
  shows "reconstructPath P s v = Some p"
proof -
  from pchain_ends [OF assms] obtain x xs where "p = x # xs" "x = s"
    by (cases p) auto
  with reconstructPath_loop_pchain [OF assms, of "[]"] show ?thesis
    by (simp add: reconstructPath_def)
qed

lemma reconstructPath_none:
  assumes "map_of P v = Some None" and "v \<noteq> s"
  shows "reconstructPath P s v = Some []"
proof -
  have "reconstructPath_loop P s (Some v) [] = reconstructPath_loop P s None [v]"
    using assms by (subst reconstructPath_loop.simps) (simp add: or_null_def)
  also have "\<dots> = Some [v]"
    by (subst reconstructPath_loop.simps) simp
  finally show ?thesis using assms(2) by (simp add: reconstructPath_def)
qed

lemma lower_bound:
  assumes inv: "dj_inv g s D P V U" and gi: "graph_inv g" and s: "has (topics g) s"
    and L: "\<forall>u\<in>set U. L \<le> dist_of D u" "\<forall>v\<in>set V. dist_of D v \<le> L"
  shows "is_path g s z p \<Longrightarrow>
    (z \<in> set V \<longrightarrow> dist_of D z \<le> Finite (path_weight g p)) \<and>
    (z \<in> set U \<longrightarrow> L \<le> Finite (path_weight g p))"
proof (induction p arbitrary: z rule: rev_induct)
  case Nil
  then show ?case by (simp add: is_path_def)
next
  case (snoc x p)
  from snoc.prems have x: "x = z" by (simp add: is_path_def)
  show ?case
  proof (cases "p = []")
    case True
    with snoc.prems x have "z = s" by (simp add: is_path_def)
    moreover have "dist_of D s = Finite 0"
      using inv by (simp add: dj_inv_def dj_base_def dist_of_def)
    ultimately show ?thesis using True L(1) by auto
  next
    case False
    let ?y = "last p"
    from snoc.prems False x have py: "is_path g s ?y p" and e: "z \<in> set (neighbors g ?y)"
      by (simp_all add: is_path_def walk_snoc hd_append)
    have w: "path_weight g (p @ [x]) = path_weight g p + edge_weight g ?y z"
      using False x by (simp add: path_weight_snoc)
    have w0: "0 \<le> edge_weight g ?y z" by (rule edge_weight_nonneg)
    from is_path_known [OF gi s py] have "?y \<in> set U \<union> set V"
      using inv by (simp add: dj_inv_def dj_base_def has_iff)
    then show ?thesis
    proof
      assume yV: "?y \<in> set V"
      with snoc.IH [OF py] have "dist_of D ?y \<le> Finite (path_weight g p)" by simp
      from add_finite_mono [OF this, of "edge_weight g ?y z"]
      have "add_finite (dist_of D ?y) (edge_weight g ?y z) \<le> Finite (path_weight g (p @ [x]))"
        by (simp add: w)
      moreover from inv yV e have "dist_of D z \<le> add_finite (dist_of D ?y) (edge_weight g ?y z)"
        by (simp add: dj_inv_def)
      ultimately have dz: "dist_of D z \<le> Finite (path_weight g (p @ [x]))" by (rule order_trans [rotated])
      show ?thesis
      proof (intro conjI impI)
        show "dist_of D z \<le> Finite (path_weight g (p @ [x]))" by (rule dz)
        assume "z \<in> set U"
        with L(1) have "L \<le> dist_of D z" by simp
        then show "L \<le> Finite (path_weight g (p @ [x]))" using dz by (rule order_trans)
      qed
    next
      assume yU: "?y \<in> set U"
      with snoc.IH [OF py] have "L \<le> Finite (path_weight g p)" by simp
      also have "\<dots> \<le> Finite (path_weight g (p @ [x]))"
        using w w0 by simp
      finally have lz: "L \<le> Finite (path_weight g (p @ [x]))" .
      show ?thesis
      proof (intro conjI impI)
        assume "z \<in> set V"
        with L(2) have "dist_of D z \<le> L" by simp
        then show "dist_of D z \<le> Finite (path_weight g (p @ [x]))" using lz by (rule order_trans)
      next
        show "L \<le> Finite (path_weight g (p @ [x]))" by (rule lz)
      qed
    qed
  qed
qed

lemma dj_base_lookup:
  assumes "dj_base g s D P V U" and "has (topics g) v"
  shows "\<exists>d. map_of D v = Some d \<and> dist_of D v = d"
proof -
  from assms have "v \<in> fst ` set D"
    by (simp add: dj_base_def has_iff flip: set_map)
  then obtain d where "map_of D v = Some d"
    by (metis domD dom_map_of_conv_image_fst)
  then show ?thesis by (simp add: dist_of_def)
qed

lemma dj_base_finite_or_infinite:
  assumes "dj_base g s D P V U" and "map_of D v = Some d"
  shows "d = Infinity \<or> (\<exists>x. d = Finite x)"
  using assms unfolding dj_base_def by blast

lemma select_step:
  assumes inv: "dj_inv g s D P V U" and gi: "graph_inv g"
    and sel: "select_min D U None Infinity = (Some c, m)"
  shows "\<exists>x. m = Finite x \<and> c \<in> set U \<and> map_of D c = Some (Finite x) \<and>
     (\<forall>u\<in>set U. Finite x \<le> dist_of D u) \<and> (\<forall>v\<in>set V. dist_of D v \<le> Finite x) \<and>
     relax_inv g s c x D P (set_add c V) (removeAll c U) (neighbors g c)"
proof -
  from inv have base: "dj_base g s D P V U" by (simp add: dj_inv_def)
  from select_min_spec [OF sel]
  have mn: "\<forall>u\<in>set U. \<forall>d. map_of D u = Some d \<longrightarrow> m \<le> d"
    and c: "c \<in> set U" "map_of D c = Some m" "m < Infinity" by auto
  from dj_base_finite_or_infinite [OF base c(2)] c(3) obtain x where x: "m = Finite x" by auto
  have known: "has (topics g) u" if "u \<in> set U \<union> set V" for u
    using base that by (auto simp add: dj_base_def has_iff)
  have lo: "\<forall>u\<in>set U. Finite x \<le> dist_of D u"
  proof
    fix u assume u: "u \<in> set U"
    with known have "has (topics g) u" by simp
    from dj_base_lookup [OF base this] mn u x show "Finite x \<le> dist_of D u" by auto
  qed
  have dc: "dist_of D c = Finite x"
    using c(2) x by (simp add: dist_of_def)
  have hi: "\<forall>v\<in>set V. dist_of D v \<le> Finite x"
  proof
    fix v assume "v \<in> set V"
    with inv c(1) have "dist_of D v \<le> dist_of D c" by (simp add: dj_inv_def)
    then show "dist_of D v \<le> Finite x" by (simp add: dc)
  qed
  let ?V = "set_add c V" and ?U = "removeAll c U"
  have cV: "c \<notin> set V" using base c(1) by (auto simp add: dj_base_def)
  have sets: "set ?V = insert c (set V)" "set ?U = set U - {c}"
    by (simp_all add: set_set_add)
  have base': "dj_base g s D P ?V ?U"
    unfolding dj_base_def sets
  proof (intro conjI allI impI)
    show "map fst D = map fst (topics g)" "map fst P = map fst (topics g)"
      "map_of D s = Some (Finite 0)"
      using base by (simp_all add: dj_base_def)
    show "set U - {c} \<union> insert c (set V) = fst ` set (topics g)"
      using base c(1) by (auto simp add: dj_base_def)
    show "(set U - {c}) \<inter> insert c (set V) = {}"
      using base by (auto simp add: dj_base_def)
  next
    fix v d assume "map_of D v = Some d"
    with base have "(d = Infinity \<and> map_of P v = Some None) \<or>
        (\<exists>p. d = Finite (path_weight g p) \<and> pchain P (set V) s v p \<and> walk g p)"
      unfolding dj_base_def by blast
    then show "(d = Infinity \<and> map_of P v = Some None) \<or>
        (\<exists>p. d = Finite (path_weight g p) \<and> pchain P (insert c (set V)) s v p \<and> walk g p)"
      using pchain_mono [of P "set V" s v _ "insert c (set V)"] by blast
  qed
  have "relax_inv g s c x D P ?V ?U (neighbors g c)"
    unfolding relax_inv_def
  proof (intro conjI ballI impI)
    show "dj_base g s D P ?V ?U" by (rule base')
    show "c \<in> set ?V" by (simp add: sets)
    show "map_of D c = Some (Finite x)" using c(2) x by simp
  next
    fix u v assume u: "u \<in> set ?V" and v: "v \<in> set (neighbors g u)"
      and r: "u = c \<longrightarrow> v \<notin> set (neighbors g c)"
    from u v r have "u \<in> set V" by (auto simp add: sets)
    with inv v show "dist_of D v \<le> add_finite (dist_of D u) (edge_weight g u v)"
      by (simp add: dj_inv_def)
  next
    fix u assume "u \<in> set ?V"
    with hi dc show "dist_of D u \<le> Finite x" by (auto simp add: sets)
  next
    fix v assume "v \<in> set ?U"
    with lo show "Finite x \<le> dist_of D v" by (simp add: sets)
  qed
  with x c(1) c(2) lo hi show ?thesis by simp
qed

lemma relax_done:
  assumes "relax_inv g s c m D P V U []"
  shows "dj_inv g s D P V U"
  unfolding dj_inv_def
proof (intro conjI ballI)
  show "dj_base g s D P V U" using assms by (simp add: relax_inv_def)
next
  fix u v assume "u \<in> set V" "v \<in> set (neighbors g u)"
  with assms show "dist_of D v \<le> add_finite (dist_of D u) (edge_weight g u v)"
    by (simp add: relax_inv_def)
next
  fix u v assume "u \<in> set V" "v \<in> set U"
  with assms have "dist_of D u \<le> Finite m" "Finite m \<le> dist_of D v"
    by (simp_all add: relax_inv_def)
  then show "dist_of D u \<le> dist_of D v" by (rule order_trans)
qed

lemma relax_inv_skip:
  assumes inv: "relax_inv g s c m D P V U (n # ns)"
    and le: "dist_of D n \<le> Finite (m + edge_weight g c n)"
  shows "relax_inv g s c m D P V U ns"
  unfolding relax_inv_def
proof (intro conjI ballI impI)
  show "dj_base g s D P V U" "c \<in> set V" "map_of D c = Some (Finite m)"
    using inv by (simp_all add: relax_inv_def)
next
  fix u v assume u: "u \<in> set V" and v: "v \<in> set (neighbors g u)" and r: "u = c \<longrightarrow> v \<notin> set ns"
  show "dist_of D v \<le> add_finite (dist_of D u) (edge_weight g u v)"
  proof (cases "u = c \<and> v = n")
    case True
    have "dist_of D c = Finite m" using inv by (simp add: relax_inv_def dist_of_def)
    with True le show ?thesis by simp
  next
    case False
    with r have "u = c \<longrightarrow> v \<notin> set (n # ns)" by auto
    with inv u v show ?thesis unfolding relax_inv_def by blast
  qed
next
  fix u assume "u \<in> set V"
  with inv show "dist_of D u \<le> Finite m" by (simp add: relax_inv_def)
next
  fix v assume "v \<in> set U"
  with inv show "Finite m \<le> dist_of D v" by (simp add: relax_inv_def)
qed

lemma dist_of_update:
  "dist_of (AList.update n d D) v = (if v = n then d else dist_of D v)"
  by (simp add: dist_of_def update_conv')

lemma relax_inv_update:
  assumes inv: "relax_inv g s c m D P V U (n # ns)"
    and gi: "graph_inv g" and ne: "[] \<notin> fst ` set (topics g)"
    and n: "n \<in> set (neighbors g c)" "n \<notin> set V"
    and lt: "Finite (m + edge_weight g c n) < dist_of D n"
  shows "relax_inv g s c m (AList.update n (Finite (m + edge_weight g c n)) D)
           (AList.update n (Some c) P) V U ns"
proof -
  let ?w = "edge_weight g c n"
  let ?D = "AList.update n (Finite (m + ?w)) D" and ?P = "AList.update n (Some c) P"
  from inv have base: "dj_base g s D P V U" and cV: "c \<in> set V"
    and dc: "map_of D c = Some (Finite m)" by (simp_all add: relax_inv_def)
  from graph_inv_neighbors [OF gi n(1)] have known: "has (topics g) c" "has (topics g) n" by simp_all
  from edge_weight_ge_1 [OF known] have w1: "1 \<le> ?w" .
  have keys: "n \<in> fst ` set D" "n \<in> fst ` set P"
    using base known(2) by (simp_all add: dj_base_def has_iff flip: set_map)
  have cn: "c \<noteq> n" using cV n(2) by auto
  have c_ne: "c \<noteq> []" using known(1) ne unfolding has_iff by blast
  have m0: "0 \<le> m"
  proof -
    from base dc have "\<exists>p. Finite m = Finite (path_weight g p)"
      unfolding dj_base_def by blast
    then show ?thesis using path_weight_nonneg [of g] by auto
  qed
  have ns: "n \<noteq> s"
  proof
    assume "n = s"
    with base have "dist_of D n = Finite 0" by (simp add: dj_base_def dist_of_def)
    with lt m0 w1 show False by simp
  qed
  have lower: "dist_of ?D v \<le> dist_of D v" for v
    using lt by (auto simp add: dist_of_update intro: order_less_imp_le)
  have base': "dj_base g s ?D ?P V U"
    unfolding dj_base_def
  proof (intro conjI allI impI)
    show "map fst ?D = map fst (topics g)" "map fst ?P = map fst (topics g)"
      using base keys by (simp_all add: dj_base_def alist_update_keys_same)
    show "set U \<union> set V = fst ` set (topics g)" "set U \<inter> set V = {}"
      using base by (simp_all add: dj_base_def)
    show "map_of ?D s = Some (Finite 0)"
      using base ns by (simp add: dj_base_def update_conv')
  next
    fix v d assume vd: "map_of ?D v = Some d"
    show "(d = Infinity \<and> map_of ?P v = Some None) \<or>
        (\<exists>p. d = Finite (path_weight g p) \<and> pchain ?P (set V) s v p \<and> walk g p)"
    proof (cases "v = n")
      case True
      with vd have d: "d = Finite (m + ?w)" by (simp add: update_conv')
      from base dc obtain pc where pc: "m = path_weight g pc" "pchain P (set V) s c pc" "walk g pc"
        unfolding dj_base_def by blast
      from pchain_ends [OF pc(2)] have e: "pc \<noteq> []" "last pc = c" by simp_all
      have "pchain ?P (set V) s c pc"
        using pc(2) n(2) cn by (intro pchain_update) auto
      moreover have "map_of ?P n = Some (Some c)" by (simp add: update_conv')
      ultimately have "pchain ?P (set V) s n (pc @ [n])"
        using cV c_ne ns by (intro pchain.pchain_step)
      moreover have "walk g (pc @ [n])" using pc(3) e n(1) by (simp add: walk_snoc)
      moreover have "path_weight g (pc @ [n]) = m + ?w"
        using e pc(1) by (simp add: path_weight_snoc)
      ultimately have "d = Finite (path_weight g (pc @ [n])) \<and>
          pchain ?P (set V) s v (pc @ [n]) \<and> walk g (pc @ [n])"
        using d True by simp
      then show ?thesis by blast
    next
      case False
      with vd have old: "map_of D v = Some d" by (simp add: update_conv')
      from False have pv: "map_of ?P v = map_of P v" by (simp add: update_conv')
      from base old have "(d = Infinity \<and> map_of P v = Some None) \<or>
        (\<exists>p. d = Finite (path_weight g p) \<and> pchain P (set V) s v p \<and> walk g p)"
        unfolding dj_base_def by blast
      then show ?thesis
      proof
        assume "d = Infinity \<and> map_of P v = Some None"
        with pv show ?thesis by simp
      next
        assume "\<exists>p. d = Finite (path_weight g p) \<and> pchain P (set V) s v p \<and> walk g p"
        then obtain p where p: "d = Finite (path_weight g p)" "pchain P (set V) s v p" "walk g p"
          by blast
        from p(2) n(2) False have "pchain ?P (set V) s v p"
          by (intro pchain_update) auto
        with p show ?thesis by blast
      qed
    qed
  qed
  show ?thesis
    unfolding relax_inv_def
  proof (intro conjI ballI impI)
    show "dj_base g s ?D ?P V U" by (rule base')
    show "c \<in> set V" by (rule cV)
    show "map_of ?D c = Some (Finite m)" using dc cn by (simp add: update_conv')
  next
    fix u v assume u: "u \<in> set V" and v: "v \<in> set (neighbors g u)" and r: "u = c \<longrightarrow> v \<notin> set ns"
    from u n(2) have un: "u \<noteq> n" by auto
    then have du: "dist_of ?D u = dist_of D u" by (simp add: dist_of_update)
    show "dist_of ?D v \<le> add_finite (dist_of ?D u) (edge_weight g u v)"
    proof (cases "u = c \<and> v = n")
      case True
      have "dist_of D c = Finite m" using dc by (simp add: dist_of_def)
      with True du show ?thesis by (simp add: dist_of_update)
    next
      case False
      with r have "u = c \<longrightarrow> v \<notin> set (n # ns)" by auto
      with inv u v have "dist_of D v \<le> add_finite (dist_of D u) (edge_weight g u v)"
        unfolding relax_inv_def by blast
      with lower [of v] du show ?thesis by (auto intro: order_trans)
    qed
  next
    fix u assume u: "u \<in> set V"
    with inv have "dist_of D u \<le> Finite m" by (simp add: relax_inv_def)
    with lower [of u] show "dist_of ?D u \<le> Finite m" by (rule order_trans)
  next
    fix v assume v: "v \<in> set U"
    show "Finite m \<le> dist_of ?D v"
    proof (cases "v = n")
      case True
      with w1 show ?thesis by (simp add: dist_of_update)
    next
      case False
      with inv v show ?thesis by (simp add: relax_inv_def dist_of_update)
    qed
  qed
qed

lemma relax_neighbors_inv:
  assumes gi: "graph_inv g" and ne: "[] \<notin> fst ` set (topics g)"
  shows "set ns \<subseteq> set (neighbors g c) \<Longrightarrow> relax_inv g s c m D P V U ns \<Longrightarrow>
     \<exists>D' P'. relax_neighbors g c V ns (D, P) = Inr (D', P') \<and> relax_inv g s c m D' P' V U []"
proof (induction ns arbitrary: D P)
  case Nil
  then show ?case by simp
next
  case (Cons n ns)
  from Cons.prems(1) have n: "n \<in> set (neighbors g c)" and sub: "set ns \<subseteq> set (neighbors g c)"
    by simp_all
  note inv = Cons.prems(2)
  from inv have base: "dj_base g s D P V U" and dc: "map_of D c = Some (Finite m)"
    by (simp_all add: relax_inv_def)
  from graph_inv_neighbors [OF gi n] have known: "has (topics g) c" "has (topics g) n" by simp_all
  from dj_base_lookup [OF base known(2)] obtain dn where dn: "map_of D n = Some dn" "dist_of D n = dn"
    by blast
  have w: "getEdgeWeight g c n = Inr (edge_weight g c n)"
    using known by (rule getEdgeWeight_edge_weight)
  let ?nd = "Finite (m + edge_weight g c n)"
  show ?case
  proof (cases "n \<in> set V")
    case True
    with inv have "dist_of D n \<le> Finite m" by (simp add: relax_inv_def)
    also have "\<dots> \<le> ?nd" using edge_weight_nonneg [of g c n] by simp
    finally have "dist_of D n \<le> ?nd" .
    with inv have "relax_inv g s c m D P V U ns" by (rule relax_inv_skip)
    from Cons.IH [OF sub this] True show ?thesis by simp
  next
    case False
    show ?thesis
    proof (cases "?nd < dn")
      case True
      with dn have "?nd < dist_of D n" by simp
      from relax_inv_update [OF inv gi ne n False this]
      have "relax_inv g s c m (AList.update n ?nd D) (AList.update n (Some c) P) V U ns" .
      from Cons.IH [OF sub this] False True w dc dn show ?thesis by (simp add: Let_def)
    next
      case nl: False
      with dn have "dist_of D n \<le> ?nd" by simp
      with inv have "relax_inv g s c m D P V U ns" by (rule relax_inv_skip)
      from Cons.IH [OF sub this] False nl w dc dn show ?thesis by (simp add: Let_def)
    qed
  qed
qed

lemma dijkstra_loop_outcome:
  assumes gi: "graph_inv g" and ne: "[] \<notin> fst ` set (topics g)" and s: "has (topics g) s"
  shows "dj_inv g s D P V U \<Longrightarrow> e \<in> set U \<Longrightarrow>
    \<exists>D' P'. dijkstra_loop g e D P V U = Inr (D', P') \<and> sp_outcome g s e D' P'"
  using assms
proof (induction g e D P V U rule: dijkstra_loop.induct)
  case (1 g e D P V U)
  note inv = "1.prems"(1) and eU = "1.prems"(2) and gi = "1.prems"(3) and ne = "1.prems"(4)
    and s = "1.prems"(5)
  from inv have base: "dj_base g s D P V U" by (simp add: dj_inv_def)
  from eU have len: "0 < length U" by (cases U) auto
  have eK: "has (topics g) e"
    using base eU by (auto simp add: dj_base_def has_iff)
  from dj_base_lookup [OF base eK] obtain de where de: "map_of D e = Some de" "dist_of D e = de"
    by blast
  obtain r m where sel: "select_min D U None Infinity = (r, m)" by force
  show ?case
  proof (cases r)
    case None
    from select_min_spec [OF sel] None have m: "m = Infinity"
      and mn: "\<forall>u\<in>set U. \<forall>d. map_of D u = Some d \<longrightarrow> m \<le> d" by auto
    have lo: "\<forall>u\<in>set U. Infinity \<le> dist_of D u"
    proof
      fix u assume u: "u \<in> set U"
      then have "has (topics g) u" using base by (auto simp add: dj_base_def has_iff)
      from dj_base_lookup [OF base this] mn u m show "Infinity \<le> dist_of D u" by auto
    qed
    have hi: "\<forall>v\<in>set V. dist_of D v \<le> Infinity" by simp
    have unreachable: "\<not> is_path g s e p" for p
    proof
      assume "is_path g s e p"
      from lower_bound [OF inv gi s lo hi this] eU show False by simp
    qed
    from lo eU de have "de = Infinity" by auto
    with base de have "map_of D e = Some Infinity" "map_of P e = Some None"
      unfolding dj_base_def by auto
    with unreachable have "sp_outcome g s e D P" by (simp add: sp_outcome_def)
    moreover have "dijkstra_loop g e D P V U = Inr (D, P)"
      using sel None len by (subst dijkstra_loop.simps) simp
    ultimately show ?thesis by simp
  next
    case (Some c)
    with sel have sel': "select_min D U None Infinity = (Some c, m)" by simp
    from select_step [OF inv gi sel'] obtain x where x: "m = Finite x" "c \<in> set U"
      "map_of D c = Some (Finite x)"
      and lo: "\<forall>u\<in>set U. Finite x \<le> dist_of D u" and hi: "\<forall>v\<in>set V. dist_of D v \<le> Finite x"
      and rinv: "relax_inv g s c x D P (set_add c V) (removeAll c U) (neighbors g c)"
      by blast
    show ?thesis
    proof (cases "c = e")
      case True
      from base x(3) True obtain p where p: "x = path_weight g p" "pchain P (set V) s e p" "walk g p"
        unfolding dj_base_def by blast
      have "path_weight g p \<le> path_weight g q" if "is_path g s e q" for q
        using lower_bound [OF inv gi s lo hi that] eU p(1) by simp
      with p x(3) True have "sp_outcome g s e D P"
        unfolding sp_outcome_def by blast
      moreover have "dijkstra_loop g e D P V U = Inr (D, P)"
        using sel' len x(1) True by (subst dijkstra_loop.simps) (simp add: Let_def)
      ultimately show ?thesis by simp
    next
      case False
      from relax_neighbors_inv [OF gi ne subset_refl rinv]
      obtain D' P' where rel: "relax_neighbors g c (set_add c V) (neighbors g c) (D, P) = Inr (D', P')"
        and rinv': "relax_inv g s c x D' P' (set_add c V) (removeAll c U) []" by blast
      from rinv' have inv': "dj_inv g s D' P' (set_add c V) (removeAll c U)" by (rule relax_done)
      have eU': "e \<in> set (removeAll c U)" using eU False by simp
      have mi: "m \<noteq> Infinity" using x(1) by simp
      from "1.IH" [OF len sel' [symmetric] refl mi refl refl False rel refl inv' eU' gi ne s]
      obtain D'' P'' where fin: "dijkstra_loop g e D' P' (set_add c V) (removeAll c U) = Inr (D'', P'')"
        "sp_outcome g s e D'' P''" by blast
      have "dijkstra_loop g e D P V U = dijkstra_loop g e D' P' (set_add c V) (removeAll c U)"
        using sel' len x(1) False rel by (subst dijkstra_loop.simps) (simp add: Let_def)
      with fin show ?thesis by simp
    qed
  qed
qed

lemma map_of_tabulate:
  "map_of (map (\<lambda>k. (k, f k)) ks) v = (if v \<in> set ks then Some (f v) else None)"
  by (induction ks) auto

lemma dj_inv_init:
  assumes gi: "graph_inv g" and s: "has (topics g) s"
  shows "dj_inv g s (map (\<lambda>k. (k, if k = s then Finite 0 else Infinity)) (map fst (topics g)))
           (map (\<lambda>k. (k, None)) (map fst (topics g))) [] (map fst (topics g))"
proof -
  let ?ks = "map fst (topics g)"
  let ?D = "map (\<lambda>k. (k, if k = s then Finite 0 else Infinity)) ?ks"
  let ?P = "map (\<lambda>k. (k, None :: string option)) ?ks"
  have D: "map_of ?D v = (if v \<in> set ?ks then Some (if v = s then Finite 0 else Infinity) else None)" for v
    by (rule map_of_tabulate)
  have P: "map_of ?P v = (if v \<in> set ?ks then Some None else None)" for v
    by (rule map_of_tabulate)
  have sk: "s \<in> set ?ks" using s by (simp add: has_iff)
  have "dj_base g s ?D ?P [] ?ks"
    unfolding dj_base_def
  proof (intro conjI allI impI)
    show "map fst ?D = ?ks" "map fst ?P = ?ks" by (simp_all add: comp_def)
    show "set ?ks \<union> set [] = fst ` set (topics g)" "set ?ks \<inter> set [] = {}" by simp_all
    show "map_of ?D s = Some (Finite 0)" unfolding D using sk by simp
  next
    fix v d assume vd: "map_of ?D v = Some d"
    show "(d = Infinity \<and> map_of ?P v = Some None) \<or>
        (\<exists>p. d = Finite (path_weight g p) \<and> pchain ?P (set []) s v p \<and> walk g p)"
    proof (cases "v = s")
      case True
      with vd sk have "d = Finite (path_weight g [s])" unfolding D by simp
      moreover have "pchain ?P (set []) s s [s]" by (rule pchain.pchain_start)
      ultimately show ?thesis using True by (intro disjI2 exI [of _ "[s]"]) simp
    next
      case False
      with vd show ?thesis unfolding D P by (auto split: if_splits)
    qed
  qed
  then show ?thesis by (simp add: dj_inv_def)
qed

section \<open>Shortest paths: the result\<close>

text \<open>
  C1, as amended. For every graph built from a topic list in which no id is the empty
  string, and every two ids of the graph, \<open>findShortestPath\<close> returns, raises no error, and
  returns \<open>null\<close> exactly when the end cannot be reached from the start. Otherwise the
  returned path leads from the start to the end along the adjacency sets, and the returned
  distance is the sum of the edge weights along that path and is no greater than the
  weight of any path from the start to the end.
\<close>

theorem findShortestPath_correct:
  assumes ne: "[] \<notin> id_topic ` set ts"
    and s: "has (topics (buildGraph ts)) startId" and e: "has (topics (buildGraph ts)) endId"
  shows "\<exists>r. findShortestPath (buildGraph ts) startId endId = Some (Inr r) \<and>
     (r = None \<longleftrightarrow> (\<forall>p. \<not> is_path (buildGraph ts) startId endId p)) \<and>
     (\<forall>res. r = Some res \<longrightarrow>
        is_path (buildGraph ts) startId endId (sp_path res) \<and>
        sp_distance res = Some (Finite (path_weight (buildGraph ts) (sp_path res))) \<and>
        (\<forall>q. is_path (buildGraph ts) startId endId q \<longrightarrow>
           path_weight (buildGraph ts) (sp_path res) \<le> path_weight (buildGraph ts) q))"
proof (cases "startId = endId")
  case True
  let ?g = "buildGraph ts"
  let ?res = "\<lparr>sp_path = [startId], sp_distance = Some (Finite 0),
                sp_topics = [map_of (topics ?g) startId]\<rparr>"
  from s True have "findShortestPath ?g startId endId = Some (Inr (Some ?res))"
    by (simp add: findShortestPath_def)
  moreover have "is_path ?g startId endId [startId]"
    using True by (simp add: is_path_def)
  moreover have "\<forall>q. path_weight ?g [startId] \<le> path_weight ?g q"
    by (simp add: path_weight_nonneg)
  ultimately show ?thesis by auto
next
  case False
  let ?g = "buildGraph ts"
  have gi: "graph_inv ?g" by (rule graph_inv_buildGraph)
  have nek: "[] \<notin> fst ` set (topics ?g)"
    using ne by (simp add: keys_buildGraph)
  from gi have dk: "distinct (map fst (topics ?g))" by (simp add: graph_inv_def)
  let ?ks = "map fst (topics ?g)"
  let ?D0 = "map (\<lambda>k. (k, if k = startId then Finite 0 else Infinity)) ?ks"
  let ?P0 = "map (\<lambda>k. (k, None :: string option)) ?ks"
  have init: "init_search ?g startId = (?D0, ?P0, ?ks)"
    using dk by (rule init_search_eq)
  have eU: "endId \<in> set ?ks" using e by (simp add: has_iff)
  from dijkstra_loop_outcome [OF gi nek s dj_inv_init [OF gi s] eU]
  obtain D P where loop: "dijkstra_loop ?g endId ?D0 ?P0 [] ?ks = Inr (D, P)"
    and out: "sp_outcome ?g startId endId D P" by blast
  from out show ?thesis
    unfolding sp_outcome_def
  proof (elim disjE conjE exE)
    assume d: "map_of D endId = Some Infinity" and p: "map_of P endId = Some None"
      and un: "\<forall>p. \<not> is_path ?g startId endId p"
    from p False have "reconstructPath P startId endId = Some []"
      by (intro reconstructPath_none) auto
    with s e False init loop have "findShortestPath ?g startId endId = Some (Inr None)"
      by (simp add: findShortestPath_def)
    with un show ?thesis by simp
  next
    fix p settled
    assume d: "map_of D endId = Some (Finite (path_weight ?g p))"
      and c: "pchain P settled startId endId p" and w: "walk ?g p"
      and mn: "\<forall>q. is_path ?g startId endId q \<longrightarrow> path_weight ?g p \<le> path_weight ?g q"
    from pchain_ends [OF c] w have ip: "is_path ?g startId endId p" and pne: "p \<noteq> []"
      by (simp_all add: is_path_def)
    let ?res = "\<lparr>sp_path = p, sp_distance = Some (Finite (path_weight ?g p)),
                  sp_topics = map (map_of (topics ?g)) p\<rparr>"
    from reconstructPath_pchain [OF c] s e False init loop d pne
    have "findShortestPath ?g startId endId = Some (Inr (Some ?res))"
      by (simp add: findShortestPath_def)
    with ip mn show ?thesis by auto
  qed
qed

text \<open>
  C1 fails on a topic with the empty string as id: its parent \<open>p\<close> is one edge away, and
  \<open>findShortestPath\<close> returns \<open>null\<close>.
\<close>

theorem findShortestPath_counterexample:
  "has (topics (buildGraph emptyIdTopics)) '''' \<and> has (topics (buildGraph emptyIdTopics)) ''p''
   \<and> is_path (buildGraph emptyIdTopics) '''' ''p'' ['''', ''p'']
   \<and> findShortestPath (buildGraph emptyIdTopics) '''' ''p'' = Some (Inr None)"
  by code_simp

theorem findShortestPath_correct_witness:
  "[] \<notin> id_topic ` set sampleTopics \<and>
   has (topics (buildGraph sampleTopics)) ''grandchild1'' \<and>
   has (topics (buildGraph sampleTopics)) ''grandchild2'' \<and>
   (\<exists>r. findShortestPath (buildGraph sampleTopics) ''grandchild1'' ''grandchild2'' = Some (Inr r) \<and>
     (r = None \<longleftrightarrow> (\<forall>p. \<not> is_path (buildGraph sampleTopics) ''grandchild1'' ''grandchild2'' p)) \<and>
     (\<forall>res. r = Some res \<longrightarrow>
        is_path (buildGraph sampleTopics) ''grandchild1'' ''grandchild2'' (sp_path res) \<and>
        sp_distance res = Some (Finite (path_weight (buildGraph sampleTopics) (sp_path res))) \<and>
        (\<forall>q. is_path (buildGraph sampleTopics) ''grandchild1'' ''grandchild2'' q \<longrightarrow>
           path_weight (buildGraph sampleTopics) (sp_path res)
             \<le> path_weight (buildGraph sampleTopics) q)))"
proof -
  have n: "[] \<notin> id_topic ` set sampleTopics"
    by (simp add: sampleTopics_def)
  have h: "has (topics (buildGraph sampleTopics)) ''grandchild1''"
    "has (topics (buildGraph sampleTopics)) ''grandchild2''"
    by (simp_all add: has_iff keys_buildGraph sampleTopics_def)
  from findShortestPath_correct [OF n h] n h show ?thesis by blast
qed

section \<open>Topics within a distance: graphs without cycles\<close>



lemma tdist_nonneg: "tdist pre g s v d \<Longrightarrow> 0 \<le> d"
  by (induction rule: tdist.induct) (simp_all add: edge_weight_nonneg)







































section \<open>Statistics of the empty graph\<close>

text \<open>
  C10. For the graph built from the empty topic list, \<open>getGraphStats\<close> returns node count 0,
  edge count 0 and no root; its maximum depth is \<open>-Infinity\<close>, the maximum over no depth at
  all, and not 0.
\<close>

theorem getGraphStats_empty:
  "getGraphStats (buildGraph []) =
     Some \<lparr>gs_nodeCount = 0, gs_edgeCount = 0, gs_maxDepth = NegInfinity, gs_rootNodes = []\<rparr>
   \<and> NegInfinity \<noteq> Finite 0"
  by (simp add: getGraphStats_def buildGraph_def Math_max_def)

end
